theory Spec2Isabelle
  imports Main "HOL-Library.Word" "HOL-Library.AList"
begin

unbundle bit_operations_syntax

section \<open>Machine model\<close>

text \<open>
  The runtime in \<^verbatim>\<open>buffer.c\<close> works on raw heap memory.  The embedding keeps
  that memory explicit: a heap is an association list from block addresses to the
  bytes of the block, every pointer is a block address together with a byte index,
  and every access the C standard leaves undefined (a block that is not allocated,
  an index outside the block) is a fault value instead of an unspecified result.
  \<^verbatim>\<open>uint8_t\<close>, \<^verbatim>\<open>uint32_t\<close> and \<^verbatim>\<open>uint64_t\<close> are words of
  that width, so all arithmetic wraps as in the source.
\<close>

type_synonym u8 = "8 word"
type_synonym u32 = "32 word"
type_synonym u64 = "64 word"
type_synonym addr = nat
type_synonym ptr = "addr \<times> nat"

datatype fault = AllocationFailed | InvalidPointer | OutOfBounds

text \<open>
  \<^verbatim>\<open>avail\<close> is the number of bytes the allocator can still hand out, so that
  \<^verbatim>\<open>malloc\<close> has its failing branch; \<^verbatim>\<open>junk\<close> is the byte found in
  memory that \<^verbatim>\<open>malloc\<close> returns without initialising it.
\<close>

record heap =
  blocks :: "(addr \<times> u8 list) list"
  avail :: nat
  junk :: u8

definition bind_f :: "fault + 'a \<Rightarrow> ('a \<Rightarrow> fault + 'b) \<Rightarrow> fault + 'b" where
  "bind_f m f = (case m of Inl e \<Rightarrow> Inl e | Inr x \<Rightarrow> f x)"

definition fresh_addr :: "heap \<Rightarrow> addr" where
  "fresh_addr h = Suc (fold max (map fst (blocks h)) 0)"

definition place :: "heap \<Rightarrow> nat \<Rightarrow> u8 \<Rightarrow> (addr \<times> heap) option" where
  "place h sz fill =
     (if sz \<le> avail h
      then Some (fresh_addr h,
                 h\<lparr>blocks := (fresh_addr h, replicate sz fill) # blocks h,
                   avail := avail h - sz\<rparr>)
      else None)"

text \<open>\<^verbatim>\<open>malloc(sz)\<close>: a new block of \<open>sz\<close> bytes with indeterminate contents, or
  \<^verbatim>\<open>NULL\<close> (here \<open>None\<close>).  A request of zero bytes yields a block of its own,
  as glibc does.\<close>

definition malloc :: "heap \<Rightarrow> nat \<Rightarrow> (addr \<times> heap) option" where
  "malloc h sz = place h sz (junk h)"

text \<open>\<^verbatim>\<open>calloc(n, 1)\<close>: as \<^verbatim>\<open>malloc\<close>, with every byte zero.\<close>

definition calloc :: "heap \<Rightarrow> nat \<Rightarrow> (addr \<times> heap) option" where
  "calloc h n = place h n 0"

text \<open>\<^verbatim>\<open>free(p)\<close>: the block leaves the heap; a pointer that is not the address
  of a live block is a fault.\<close>

definition free :: "heap \<Rightarrow> addr \<Rightarrow> fault + heap" where
  "free h a =
     (case map_of (blocks h) a of
        None \<Rightarrow> Inl InvalidPointer
      | Some blk \<Rightarrow> Inr (h\<lparr>blocks := AList.delete a (blocks h),
                           avail := avail h + length blk\<rparr>))"

text \<open>Reading and writing one byte through a pointer: \<^verbatim>\<open>p[j]\<close> and
  \<^verbatim>\<open>p[j] = v\<close>.\<close>

definition load :: "heap \<Rightarrow> ptr \<Rightarrow> nat \<Rightarrow> fault + u8" where
  "load h p j =
     (case map_of (blocks h) (fst p) of
        None \<Rightarrow> Inl InvalidPointer
      | Some blk \<Rightarrow> if snd p + j < length blk then Inr (blk ! (snd p + j))
                    else Inl OutOfBounds)"

definition store :: "heap \<Rightarrow> ptr \<Rightarrow> nat \<Rightarrow> u8 \<Rightarrow> fault + heap" where
  "store h p j v =
     (case map_of (blocks h) (fst p) of
        None \<Rightarrow> Inl InvalidPointer
      | Some blk \<Rightarrow> if snd p + j < length blk
                    then Inr (h\<lparr>blocks := AList.update (fst p) (blk[snd p + j := v]) (blocks h)\<rparr>)
                    else Inl OutOfBounds)"

text \<open>
  A \<^verbatim>\<open>const uint8_t *\<close> argument that the callee only reads (the bytes handed to
  \<^verbatim>\<open>c_buffer_construct\<close>, a null-terminated text) is the sequence of bytes
  readable from that pointer on; reading past its end is a fault.
\<close>

definition peek :: "u8 list \<Rightarrow> nat \<Rightarrow> fault + u8" where
  "peek mem j = (if j < length mem then Inr (mem ! j) else Inl OutOfBounds)"

definition readable :: "heap \<Rightarrow> ptr \<Rightarrow> fault + u8 list" where
  "readable h p =
     (case map_of (blocks h) (fst p) of
        None \<Rightarrow> Inl InvalidPointer
      | Some blk \<Rightarrow> Inr (drop (snd p) blk))"

section \<open>The Buffer value (types.c)\<close>

record Buffer =
  offset :: u32
  length_B :: u32
  data :: addr

section \<open>buffer.c\<close>

definition BUFFER_HEADER_WIDTH :: nat where
  "BUFFER_HEADER_WIDTH = 8"

definition c_buffer_offset :: "Buffer \<Rightarrow> u64" where
  "c_buffer_offset buffer = ucast (offset buffer)"

definition c_buffer_length :: "Buffer \<Rightarrow> u64" where
  "c_buffer_length buffer = ucast (length_B buffer)"

definition c_buffer_refcount :: "Buffer \<Rightarrow> ptr" where
  "c_buffer_refcount buffer = (data buffer, 0)"

definition c_buffer_bytes :: "Buffer \<Rightarrow> ptr" where
  "c_buffer_bytes buffer = (data buffer, BUFFER_HEADER_WIDTH + unat (offset buffer))"


text \<open>
  The two loops of \<^verbatim>\<open>c_buffer_construct\<close>.  The counters are
  \<^verbatim>\<open>uint64_t\<close> values below a \<^verbatim>\<open>uint64_t\<close> bound, so they never wrap
  and are natural numbers here.
\<close>

function zero_header :: "heap \<Rightarrow> addr \<Rightarrow> nat \<Rightarrow> fault + heap" where
  "zero_header h obj j =
     (if j < BUFFER_HEADER_WIDTH
      then (case store h (obj, 0) j 0 of
              Inl e \<Rightarrow> Inl e
            | Inr h' \<Rightarrow> zero_header h' obj (Suc j))
      else Inr h)"
  by pat_completeness auto
termination
  by (relation "measure (\<lambda>(h, obj, j). BUFFER_HEADER_WIDTH - j)") auto

declare zero_header.simps [simp del]

function copy_payload :: "heap \<Rightarrow> addr \<Rightarrow> u8 list \<Rightarrow> nat \<Rightarrow> nat \<Rightarrow> fault + heap" where
  "copy_payload h obj dat n j =
     (if j < n
      then (case peek dat j of
              Inl e \<Rightarrow> Inl e
            | Inr v \<Rightarrow>
                (case store h (obj, 0) (BUFFER_HEADER_WIDTH + j) v of
                   Inl e \<Rightarrow> Inl e
                 | Inr h' \<Rightarrow> copy_payload h' obj dat n (Suc j)))
      else Inr h)"
  by pat_completeness auto
termination
  by (relation "measure (\<lambda>(h, obj, dat, n, j). n - j)") auto

declare copy_payload.simps [simp del]

text \<open>
  Modelled from the spec: \<^verbatim>\<open>ASSERT_NON_NULL\<close>, a macro that is not part of the
  two source files.  Allocation failure is fatal: the operation stops with
  \<open>AllocationFailed\<close> when the allocator returns \<^verbatim>\<open>NULL\<close>.
\<close>

definition ASSERT_NON_NULL :: "(addr \<times> heap) option \<Rightarrow> fault + (addr \<times> heap)" where
  "ASSERT_NON_NULL r = (case r of None \<Rightarrow> Inl AllocationFailed | Some x \<Rightarrow> Inr x)"

definition c_buffer_construct :: "heap \<Rightarrow> u64 \<Rightarrow> u8 list \<Rightarrow> fault + (Buffer \<times> heap)" where
  "c_buffer_construct h n dat =
     bind_f (ASSERT_NON_NULL (malloc h (unat (of_nat BUFFER_HEADER_WIDTH + n * 1)))) (\<lambda>(obj, h1).
     bind_f (zero_header h1 obj 0) (\<lambda>h2.
     bind_f (copy_payload h2 obj dat (unat n) 0) (\<lambda>h3.
       Inr (\<lparr>offset = 0, length_B = ucast n, data = obj\<rparr>, h3))))"

definition c_buffer_destruct :: "heap \<Rightarrow> Buffer \<Rightarrow> fault + heap" where
  "c_buffer_destruct h buffer = free h (data buffer)"

definition c_buffer_construct_zeroed :: "heap \<Rightarrow> u64 \<Rightarrow> fault + (Buffer \<times> heap)" where
  "c_buffer_construct_zeroed h n =
     bind_f (ASSERT_NON_NULL (calloc h (unat n))) (\<lambda>(zeroes, h1).
     bind_f (readable h1 (zeroes, 0)) (\<lambda>zs.
     bind_f (c_buffer_construct h1 n zs) (\<lambda>(buffer, h2).
     bind_f (free h2 zeroes) (\<lambda>h3.
       Inr (buffer, h3)))))"

subsection \<open>Reference counting\<close>

text \<open>
  The counter is the \<^verbatim>\<open>uint64_t\<close> that occupies the eight header bytes.  The
  source only asks for one byte order throughout; the model takes the little-endian
  one of the targets of the LLVM backend.
\<close>

fun le_word :: "u8 list \<Rightarrow> u64" where
  "le_word [] = 0"
| "le_word (b # bs) = ucast b OR push_bit 8 (le_word bs)"

fun le_bytes :: "nat \<Rightarrow> u64 \<Rightarrow> u8 list" where
  "le_bytes 0 w = []"
| "le_bytes (Suc k) w = ucast w # le_bytes k (drop_bit 8 w)"

definition load64 :: "heap \<Rightarrow> ptr \<Rightarrow> fault + u64" where
  "load64 h p =
     (case map_of (blocks h) (fst p) of
        None \<Rightarrow> Inl InvalidPointer
      | Some blk \<Rightarrow> if snd p + 8 \<le> length blk
                    then Inr (le_word (take 8 (drop (snd p) blk)))
                    else Inl OutOfBounds)"

definition store64 :: "heap \<Rightarrow> ptr \<Rightarrow> u64 \<Rightarrow> fault + heap" where
  "store64 h p w =
     (case map_of (blocks h) (fst p) of
        None \<Rightarrow> Inl InvalidPointer
      | Some blk \<Rightarrow> if snd p + 8 \<le> length blk
                    then Inr (h\<lparr>blocks := AList.update (fst p)
                                  (take (snd p) blk @ le_bytes 8 w @ drop (snd p + 8) blk)
                                  (blocks h)\<rparr>)
                    else Inl OutOfBounds)"

text \<open>
  \<^verbatim>\<open>DEBUG_REFCOUNT\<close> guards a trace on \<^verbatim>\<open>stderr\<close>; the trace reads the
  counter that the operation itself reads next and changes nothing in memory, so
  it has no counterpart here.
\<close>

definition c_buffer_refcount_increment :: "heap \<Rightarrow> Buffer \<Rightarrow> fault + heap" where
  "c_buffer_refcount_increment h buffer =
     bind_f (load64 h (c_buffer_refcount buffer)) (\<lambda>r.
       store64 h (c_buffer_refcount buffer) (r + 1))"

text \<open>\<^verbatim>\<open>if (!(*c_buffer_refcount(buffer))--)\<close>: the old value decides, the
  decremented one is written back first.\<close>

definition c_buffer_refcount_decrement :: "heap \<Rightarrow> Buffer \<Rightarrow> fault + heap" where
  "c_buffer_refcount_decrement h buffer =
     bind_f (load64 h (c_buffer_refcount buffer)) (\<lambda>r.
     bind_f (store64 h (c_buffer_refcount buffer) (r - 1)) (\<lambda>h1.
       if r = 0 then c_buffer_destruct h1 buffer else Inr h1))"

subsection \<open>Views\<close>

definition c_buffer_slice :: "Buffer \<Rightarrow> u64 \<Rightarrow> u64 \<Rightarrow> Buffer" where
  "c_buffer_slice buffer offs len =
     (if c_buffer_offset buffer + offs + len > c_buffer_length buffer
      then buffer
      else buffer\<lparr>offset := ucast (c_buffer_offset buffer + offs), length_B := ucast len\<rparr>)"

definition c_buffer_copy :: "heap \<Rightarrow> Buffer \<Rightarrow> fault + (Buffer \<times> heap)" where
  "c_buffer_copy h buffer =
     bind_f (readable h (c_buffer_bytes buffer)) (\<lambda>bs.
       c_buffer_construct h (c_buffer_length buffer) bs)"

definition c_buffer_index :: "heap \<Rightarrow> Buffer \<Rightarrow> u64 \<Rightarrow> fault + u64" where
  "c_buffer_index h buffer index =
     bind_f (load h (data buffer, BUFFER_HEADER_WIDTH + unat (offset buffer)) (unat index))
       (\<lambda>v. Inr (ucast v))"

definition c_buffer_set :: "heap \<Rightarrow> Buffer \<Rightarrow> u64 \<Rightarrow> u8 \<Rightarrow> fault + heap" where
  "c_buffer_set h buffer index v =
     store h (data buffer, BUFFER_HEADER_WIDTH + unat (offset buffer)) (unat index) v"


subsection \<open>Text interop\<close>

function count_zero_runes :: "heap \<Rightarrow> ptr \<Rightarrow> nat \<Rightarrow> nat \<Rightarrow> u64 \<Rightarrow> fault + u64" where
  "count_zero_runes h bytes len j zero_runes =
     (if j < len
      then (case load h bytes j of
              Inl e \<Rightarrow> Inl e
            | Inr v \<Rightarrow> count_zero_runes h bytes len (Suc j)
                        (zero_runes + (if v = 0 then 1 else 0)))
      else Inr zero_runes)"
  by pat_completeness auto
termination
  by (relation "measure (\<lambda>(h, bytes, len, j, zero_runes). len - j)") auto

declare count_zero_runes.simps [simp del]

text \<open>
  The second loop of \<^verbatim>\<open>c_buffer_as_null_terminated_string\<close>: \<open>i\<close> is the
  write position in \<^verbatim>\<open>buf\<close>; after \<^verbatim>\<open>buf[i++] = bytes[j]\<close> the test reads
  back \<^verbatim>\<open>buf[i-1]\<close>, the byte just written.
\<close>

function escape_zero_runes :: "heap \<Rightarrow> ptr \<Rightarrow> addr \<Rightarrow> nat \<Rightarrow> nat \<Rightarrow> nat \<Rightarrow> fault + heap" where
  "escape_zero_runes h bytes buf len j i =
     (if j < len
      then (case load h bytes j of
              Inl e \<Rightarrow> Inl e
            | Inr v \<Rightarrow>
               (case store h (buf, 0) i v of
                  Inl e \<Rightarrow> Inl e
                | Inr h1 \<Rightarrow>
                   (case load h1 (buf, 0) i of
                      Inl e \<Rightarrow> Inl e
                    | Inr c \<Rightarrow>
                       if c = 0
                       then (case store h1 (buf, 0) i 0xC0 of
                               Inl e \<Rightarrow> Inl e
                             | Inr h2 \<Rightarrow>
                                (case store h2 (buf, 0) (Suc i) 0x80 of
                                   Inl e \<Rightarrow> Inl e
                                 | Inr h3 \<Rightarrow>
                                     escape_zero_runes h3 bytes buf len (Suc j) (Suc (Suc i))))
                       else escape_zero_runes h1 bytes buf len (Suc j) (Suc i))))
      else Inr h)"
  by pat_completeness auto
termination
  by (relation "measure (\<lambda>(h, bytes, buf, len, j, i). len - j)") auto

declare escape_zero_runes.simps [simp del]

text \<open>The result is the \<^verbatim>\<open>char *\<close> returned, as the address of its block.\<close>

definition c_buffer_as_null_terminated_string :: "heap \<Rightarrow> Buffer \<Rightarrow> fault + (addr \<times> heap)" where
  "c_buffer_as_null_terminated_string h buffer =
     (let len = c_buffer_length buffer;
          bytes = c_buffer_bytes buffer
      in bind_f (count_zero_runes h bytes (unat len) 0 0) (\<lambda>zero_runes.
         let n = len + zero_runes
         in bind_f (ASSERT_NON_NULL (malloc h (unat ((n + 1) * 1)))) (\<lambda>(buf, h1).
            bind_f (escape_zero_runes h1 bytes buf (unat len) 0 0) (\<lambda>h2.
            bind_f (store h2 (buf, 0) (unat n) 0) (\<lambda>h3.
              Inr (buf, h3))))))"

text \<open>\<^verbatim>\<open>while (data_nt[++n]);\<close> started with \<open>n = 0\<close>: the counter is
  incremented before each test.\<close>

function scan_terminator :: "u8 list \<Rightarrow> nat \<Rightarrow> fault + nat" where
  "scan_terminator data_nt n =
     (case peek data_nt (Suc n) of
        Inl e \<Rightarrow> Inl e
      | Inr c \<Rightarrow> if c \<noteq> 0 then scan_terminator data_nt (Suc n) else Inr (Suc n))"
  by pat_completeness auto
termination
  by (relation "measure (\<lambda>(data_nt, n). length data_nt - n)")
     (auto simp: peek_def split: if_splits)

declare scan_terminator.simps [simp del]

definition c_buffer_construct_from_null_terminated_string ::
  "heap \<Rightarrow> u8 list \<Rightarrow> fault + (Buffer \<times> heap)" where
  "c_buffer_construct_from_null_terminated_string h data_nt =
     bind_f (scan_terminator data_nt 0) (\<lambda>n.
       c_buffer_construct h (of_nat n) data_nt)"

subsection \<open>Derived operations\<close>

function concatenate_loop :: "heap \<Rightarrow> Buffer \<Rightarrow> Buffer \<Rightarrow> Buffer \<Rightarrow> nat \<Rightarrow> fault + heap" where
  "concatenate_loop h left right concatenated j =
     (if j < unat (c_buffer_length concatenated)
      then (case (if j < unat (c_buffer_length left)
                  then load h (c_buffer_bytes left) j
                  else load h (c_buffer_bytes right) (j - unat (c_buffer_length left))) of
              Inl e \<Rightarrow> Inl e
            | Inr v \<Rightarrow>
               (case store h (c_buffer_bytes concatenated) j v of
                  Inl e \<Rightarrow> Inl e
                | Inr h' \<Rightarrow> concatenate_loop h' left right concatenated (Suc j)))
      else Inr h)"
  by pat_completeness auto
termination
  by (relation "measure (\<lambda>(h, left, right, concatenated, j).
        unat (c_buffer_length concatenated) - j)") auto

declare concatenate_loop.simps [simp del]

definition c_buffer_concatenate :: "heap \<Rightarrow> Buffer \<Rightarrow> Buffer \<Rightarrow> fault + (Buffer \<times> heap)" where
  "c_buffer_concatenate h left right =
     bind_f (c_buffer_construct_zeroed h (c_buffer_length left + c_buffer_length right))
       (\<lambda>(concatenated, h1).
     bind_f (concatenate_loop h1 left right concatenated 0) (\<lambda>h2.
       Inr (concatenated, h2)))"

text \<open>\<^verbatim>\<open>char str[5] = {0}\<close> is five zero bytes; \<^verbatim>\<open>(unsigned char)\<close> keeps the
  low eight bits.\<close>

definition c_buffer_show_Char :: "heap \<Rightarrow> u64 \<Rightarrow> fault + (Buffer \<times> heap)" where
  "c_buffer_show_Char h n =
     (let str = replicate 5 (0 :: u8);
          buf =
            (if n < 0x80 then
               str[0 := ucast n]
             else if n < 0x800 then
               str[0 := ucast (0xC0 OR drop_bit 6 n),
                   1 := ucast (0x80 OR (n AND 0x3F))]
             else if n < 0x10000 then
               str[0 := ucast (0xE0 OR drop_bit 12 n),
                   1 := ucast (0x80 OR (drop_bit 6 n AND 0x3F)),
                   2 := ucast (0x80 OR (n AND 0x3F))]
             else if n < 0x110000 then
               str[0 := ucast (0xF0 OR drop_bit 18 n),
                   1 := ucast (0x80 OR (drop_bit 12 n AND 0x3F)),
                   2 := ucast (0x80 OR (drop_bit 6 n AND 0x3F)),
                   3 := ucast (0x80 OR (n AND 0x3F))]
             else str)
      in c_buffer_construct_from_null_terminated_string h buf)"

text \<open>
  \<^verbatim>\<open>c_buffer_character_at\<close>.  The index arithmetic is \<^verbatim>\<open>uint64_t\<close>, the
  comparison is against \<^verbatim>\<open>buffer.length\<close> widened to 64 bits, and the bytes are
  combined in \<^verbatim>\<open>int\<close> before the result becomes a \<^verbatim>\<open>uint32_t\<close>; no value
  there exceeds 21 bits.
\<close>

definition c_buffer_character_at :: "heap \<Rightarrow> Buffer \<Rightarrow> u64 \<Rightarrow> fault + u32" where
  "c_buffer_character_at h buffer index =
     (let bytes = c_buffer_bytes buffer
      in bind_f (load h bytes (unat index)) (\<lambda>first_byte.
         if first_byte < 0x80 then
           Inr (ucast first_byte)
         else if first_byte AND 0xE0 = 0xC0 then
           (if index + 1 < ucast (length_B buffer) then
              bind_f (load h bytes (unat (index + 1))) (\<lambda>b1.
                Inr (push_bit 6 (ucast (first_byte AND 0x1F)) OR ucast (b1 AND 0x3F)))
            else Inr 0)
         else if first_byte AND 0xF0 = 0xE0 then
           (if index + 2 < ucast (length_B buffer) then
              bind_f (load h bytes (unat (index + 1))) (\<lambda>b1.
              bind_f (load h bytes (unat (index + 2))) (\<lambda>b2.
                Inr (push_bit 12 (ucast (first_byte AND 0x0F))
                     OR push_bit 6 (ucast (b1 AND 0x3F))
                     OR ucast (b2 AND 0x3F))))
            else Inr 0)
         else if first_byte AND 0xF8 = 0xF0 then
           (if index + 3 < ucast (length_B buffer) then
              bind_f (load h bytes (unat (index + 1))) (\<lambda>b1.
              bind_f (load h bytes (unat (index + 2))) (\<lambda>b2.
              bind_f (load h bytes (unat (index + 3))) (\<lambda>b3.
                Inr (push_bit 18 (ucast (first_byte AND 0x07))
                     OR push_bit 12 (ucast (b1 AND 0x3F))
                     OR push_bit 6 (ucast (b2 AND 0x3F))
                     OR ucast (b3 AND 0x3F)))))
            else Inr 0)
         else Inr 0))"

section \<open>Notions used to state the properties\<close>

text \<open>A View is usable in a heap when its Storage is a live block that holds the
  header and the \<open>offset + length\<close> payload bytes the View covers.\<close>

definition view_ok :: "heap \<Rightarrow> Buffer \<Rightarrow> bool" where
  "view_ok h b =
     (case map_of (blocks h) (data b) of
        None \<Rightarrow> False
      | Some blk \<Rightarrow> BUFFER_HEADER_WIDTH + unat (offset b) + unat (length_B b) \<le> length blk)"

text \<open>The bytes a View covers.\<close>

definition view_bytes :: "heap \<Rightarrow> Buffer \<Rightarrow> u8 list" where
  "view_bytes h b =
     (case map_of (blocks h) (data b) of
        None \<Rightarrow> []
      | Some blk \<Rightarrow> take (unat (length_B b)) (drop (BUFFER_HEADER_WIDTH + unat (offset b)) blk))"

text \<open>The escaped form of a payload: a zero byte becomes \<open>0xC0 0x80\<close>.\<close>

abbreviation (input) escaped :: "u8 list \<Rightarrow> u8 list" where
  "escaped bs \<equiv> concat (map (\<lambda>x. if x = 0 then [0xC0, 0x80] else [x]) bs)"

text \<open>The number of bytes a leading byte announces, by the four tests of
  \<^verbatim>\<open>c_buffer_character_at\<close> in their order; 0 when none applies.\<close>

definition sequence_width :: "u8 \<Rightarrow> nat" where
  "sequence_width first_byte =
     (if first_byte < 0x80 then 1
      else if first_byte AND 0xE0 = 0xC0 then 2
      else if first_byte AND 0xF0 = 0xE0 then 3
      else if first_byte AND 0xF8 = 0xF0 then 4
      else 0)"


section \<open>Basic facts about the machine model\<close>

lemma bind_f_simps [simp]:
  "bind_f (Inr x) f = f x" "bind_f (Inl e) f = Inl e"
  by (simp_all add: bind_f_def)

lemma fold_max_ge: "a \<le> fold max xs (a::nat)"
  by (induction xs arbitrary: a) (auto intro: order_trans [OF max.cobounded2])

lemma fold_max_mem: "x \<in> set xs \<Longrightarrow> x \<le> fold max xs (a::nat)"
proof (induction xs arbitrary: a)
  case Nil
  then show ?case by simp
next
  case (Cons y ys)
  show ?case
  proof (cases "x = y")
    case True
    have "y \<le> max y a" by simp
    also have "\<dots> \<le> fold max ys (max y a)" by (rule fold_max_ge)
    finally show ?thesis using True by simp
  next
    case False
    with Cons.prems have "x \<in> set ys" by simp
    then show ?thesis using Cons.IH by simp
  qed
qed

text \<open>The address the allocator picks is not the address of a live block.\<close>

lemma fresh_addr_unused: "map_of (blocks h) (fresh_addr h) = None"
proof (rule ccontr)
  assume "map_of (blocks h) (fresh_addr h) \<noteq> None"
  then have "fresh_addr h \<in> fst ` set (blocks h)"
    by (simp add: map_of_eq_None_iff)
  then have "fresh_addr h \<in> set (map fst (blocks h))" by simp
  then have "fresh_addr h \<le> fold max (map fst (blocks h)) 0" by (rule fold_max_mem)
  then show False by (simp add: fresh_addr_def)
qed

lemma store_top:
  "store (h\<lparr>blocks := (a, blk) # bs\<rparr>) (a, k) j v =
     (if k + j < length blk then Inr (h\<lparr>blocks := (a, blk[k + j := v]) # bs\<rparr>)
      else Inl OutOfBounds)"
  by (simp add: store_def)

lemma load_top:
  "load (h\<lparr>blocks := (a, blk) # bs\<rparr>) (a, k) j =
     (if k + j < length blk then Inr (blk ! (k + j)) else Inl OutOfBounds)"
  by (simp add: load_def)

lemma unat_ucast_32_64: "unat (ucast (x::u32) :: u64) = unat x"
proof -
  have "unat x < 2 ^ 32" using unsigned_less [of x] by simp
  then have "unat x < 2 ^ 64" by simp
  then show ?thesis by (simp add: unsigned_ucast_eq take_bit_nat_eq_self)
qed

lemma unat_ucast_64_32: "unat (ucast (x::u64) :: u32) = unat x mod 2 ^ 32"
  by (simp add: unsigned_ucast_eq take_bit_eq_mod)

lemma unat_ucast_8_64: "unat (ucast (x::u8) :: u64) = unat x"
proof -
  have "unat x < 2 ^ 8" using unsigned_less [of x] by simp
  then have "unat x < 2 ^ 64" by simp
  then show ?thesis by (simp add: unsigned_ucast_eq take_bit_nat_eq_self)
qed

section \<open>Slicing\<close>

text \<open>
  What the guard of \<^verbatim>\<open>c_buffer_slice\<close> accepts: the requested range, moved by the
  View's own offset, must end within the View's length.
\<close>

lemma c_buffer_slice_accepted:
  assumes "unat (offset b) + unat offs + unat len \<le> unat (length_B b)"
  shows "c_buffer_slice b offs len =
           b\<lparr>offset := ucast (c_buffer_offset b + offs), length_B := ucast len\<rparr>"
    and "unat (offset (c_buffer_slice b offs len)) = unat (offset b) + unat offs"
    and "unat (length_B (c_buffer_slice b offs len)) = unat len"
proof -
  have lb: "unat (length_B b) < 2 ^ 32" using unsigned_less [of "length_B b"] by simp
  have o64: "unat (c_buffer_offset b) = unat (offset b)"
    by (simp add: c_buffer_offset_def unat_ucast_32_64)
  have l64: "unat (c_buffer_length b) = unat (length_B b)"
    by (simp add: c_buffer_length_def unat_ucast_32_64)
  have s1: "unat (c_buffer_offset b + offs) = unat (offset b) + unat offs"
    using assms lb o64 by (simp add: unat_word_ariths)
  have s2: "unat (c_buffer_offset b + offs + len) = unat (offset b) + unat offs + unat len"
    using assms lb s1 by (simp add: unat_word_ariths)
  have guard: "\<not> c_buffer_offset b + offs + len > c_buffer_length b"
    using assms by (simp add: word_less_nat_alt s2 l64)
  show "c_buffer_slice b offs len =
           b\<lparr>offset := ucast (c_buffer_offset b + offs), length_B := ucast len\<rparr>"
    using guard by (simp add: c_buffer_slice_def)
  show "unat (offset (c_buffer_slice b offs len)) = unat (offset b) + unat offs"
    using guard assms lb s1 by (simp add: c_buffer_slice_def unat_ucast_64_32)
  show "unat (length_B (c_buffer_slice b offs len)) = unat len"
    using guard assms lb by (simp add: c_buffer_slice_def unat_ucast_64_32)
qed

lemma load_shift: "load h (a, k + m) j = load h (a, k) (m + j)"
  by (simp add: load_def add.assoc split: option.split)

text \<open>A slice that the guard accepts reads the bytes of the original View, moved by
  the requested offset.\<close>

lemma c_buffer_index_slice_accepted:
  assumes "unat (offset b) + unat offs + unat len \<le> unat (length_B b)"
    and "j < len"
  shows "c_buffer_index h (c_buffer_slice b offs len) j = c_buffer_index h b (offs + j)"
proof -
  have lb: "unat (length_B b) < 2 ^ 32" using unsigned_less [of "length_B b"] by simp
  have "unat j < unat len" using assms(2) by (simp add: word_less_nat_alt)
  then have "unat (offs + j) = unat offs + unat j"
    using assms(1) lb by (simp add: unat_word_ariths)
  moreover have "data (c_buffer_slice b offs len) = data b"
    by (simp add: c_buffer_slice_def)
  ultimately show ?thesis
    using c_buffer_slice_accepted(2) [OF assms(1)]
    by (simp add: c_buffer_index_def load_shift flip: add.assoc)
qed

text \<open>Where the sum in the guard does not wrap around, a range that ends beyond the
  View's length gives the View back.\<close>

lemma c_buffer_slice_refused:
  assumes "unat (length_B b) < unat (offset b) + unat offs + unat len"
    and "unat (offset b) + unat offs + unat len < 2 ^ 64"
  shows "c_buffer_slice b offs len = b"
proof -
  have s1: "unat (c_buffer_offset b + offs) = unat (offset b) + unat offs"
    using assms by (simp add: unat_word_ariths c_buffer_offset_def unat_ucast_32_64)
  have s2: "unat (c_buffer_offset b + offs + len) = unat (offset b) + unat offs + unat len"
    using assms s1 by (simp add: unat_word_ariths)
  show ?thesis
    using assms
    by (simp add: c_buffer_slice_def word_less_nat_alt s2 c_buffer_length_def unat_ucast_32_64)
qed

text \<open>
  C1: for \<open>offset + length \<le> length(b)\<close>, \<open>slice(b, offset, length)\<close> is the View
  with offset \<open>b.offset + offset\<close> and length \<open>length\<close> over the same Storage, and its
  bytes are those of \<open>b\<close> from \<open>offset\<close> on.  The code does not do this for a View
  whose own offset is not zero.  Here \<open>b\<close> is the View \<open>{offset 1, length 3}\<close> that
  \<open>slice(construct(5, [1,2,3,4,5]), 1, 3)\<close> returns; the range \<open>1, 2\<close> lies within its
  length 3, yet the guard computes \<open>1 + 1 + 2 = 4 > 3\<close> and returns \<open>b\<close> itself, so
  that byte 0 of the result is \<open>2\<close> where byte \<open>1 + 0\<close> of \<open>b\<close> is \<open>3\<close>.
\<close>

theorem c_buffer_slice_of_offset_view:
  "(let h = \<lparr>blocks = [(1, [0, 0, 0, 0, 0, 0, 0, 0, 1, 2, 3, 4, 5])], avail = 0, junk = 0\<rparr>;
        b = c_buffer_slice \<lparr>offset = 0, length_B = 5, data = 1\<rparr> 1 3
    in b = \<lparr>offset = 1, length_B = 3, data = 1\<rparr>
       \<and> (1 :: nat) + 2 \<le> unat (c_buffer_length b)
       \<and> c_buffer_slice b 1 2 = \<lparr>offset = 1, length_B = 3, data = 1\<rparr>
       \<and> c_buffer_index h (c_buffer_slice b 1 2) 0 = Inr 2
       \<and> c_buffer_index h b (1 + 0) = Inr 3)"
  by (simp add: c_buffer_slice_def c_buffer_offset_def c_buffer_length_def
      c_buffer_index_def load_def BUFFER_HEADER_WIDTH_def)

text \<open>
  C7: for \<open>offset + length > length(b)\<close>, \<open>slice(b, offset, length)\<close> is \<open>b\<close> itself.
  The sum in the guard is a \<^verbatim>\<open>uint64_t\<close> and wraps around: for the View
  \<open>{offset 1, length 3}\<close>, \<open>offset = 2^64 - 2\<close> and \<open>length = 1\<close> the guard computes
  \<open>1 + (2^64 - 2) + 1 = 0\<close>, which is not above 3, and the result is the View
  \<open>{offset 2^32 - 1, length 1}\<close> instead of \<open>b\<close>.
\<close>

theorem c_buffer_slice_guard_wraps:
  "(let b = \<lparr>offset = 1, length_B = 3, data = 1\<rparr>
    in c_buffer_length b < 0xFFFFFFFFFFFFFFFE + 1
       \<and> c_buffer_slice b 0xFFFFFFFFFFFFFFFE 1 = \<lparr>offset = 0xFFFFFFFF, length_B = 1, data = 1\<rparr>
       \<and> c_buffer_slice b 0xFFFFFFFFFFFFFFFE 1 \<noteq> b)"
  by (simp add: c_buffer_slice_def c_buffer_offset_def c_buffer_length_def)

section \<open>Construction\<close>

text \<open>The two loops of \<^verbatim>\<open>c_buffer_construct\<close> on the block that was allocated
  last: the first zeroes the header, the second copies \<open>n\<close> bytes behind it.\<close>

lemma zero_header_top:
  "j \<le> 8 \<Longrightarrow> 8 \<le> length blk \<Longrightarrow>
   zero_header (h\<lparr>blocks := (a, blk) # bs\<rparr>) a j =
     Inr (h\<lparr>blocks := (a, take j blk @ replicate (8 - j) 0 @ drop 8 blk) # bs\<rparr>)"
proof (induction "8 - j" arbitrary: j blk)
  case 0
  then have "j = 8" by simp
  then show ?case
    by (subst zero_header.simps) (simp add: BUFFER_HEADER_WIDTH_def)
next
  case (Suc d)
  then have j: "j < 8" and d: "d = 8 - Suc j" by simp_all
  have len: "8 \<le> length (blk[j := 0])" using Suc.prems by simp
  have step: "zero_header (h\<lparr>blocks := (a, blk) # bs\<rparr>) a j =
      zero_header (h\<lparr>blocks := (a, blk[j := 0]) # bs\<rparr>) a (Suc j)"
    using j Suc.prems
    by (subst zero_header.simps) (simp add: BUFFER_HEADER_WIDTH_def store_top)
  have rep: "replicate (8 - j) (0::u8) = 0 # replicate (8 - Suc j) 0"
    using j by (simp add: Suc_diff_Suc flip: replicate_Suc)
  have tk: "take (Suc j) (blk[j := 0]) = take j blk @ [0]"
    using j Suc.prems by (simp add: take_Suc_conv_app_nth)
  have dr: "drop 8 (blk[j := 0]) = drop 8 blk"
    using j by simp
  show ?case
    unfolding step using Suc.hyps(1) [OF d _ len] j
    by (simp add: rep tk dr)
qed

lemma copy_payload_top:
  "j \<le> n \<Longrightarrow> n \<le> length dat \<Longrightarrow> 8 + n \<le> length blk \<Longrightarrow>
   copy_payload (h\<lparr>blocks := (a, blk) # bs\<rparr>) a dat n j =
     Inr (h\<lparr>blocks := (a, take (8 + j) blk @ take (n - j) (drop j dat) @ drop (8 + n) blk) # bs\<rparr>)"
proof (induction "n - j" arbitrary: j blk)
  case 0
  then have "j = n" by simp
  then show ?case
    by (subst copy_payload.simps) simp
next
  case (Suc d)
  then have j: "j < n" and d: "d = n - Suc j" by simp_all
  let ?blk = "blk[8 + j := dat ! j]"
  have len: "8 + n \<le> length ?blk" using Suc.prems by simp
  have step: "copy_payload (h\<lparr>blocks := (a, blk) # bs\<rparr>) a dat n j =
      copy_payload (h\<lparr>blocks := (a, ?blk) # bs\<rparr>) a dat n (Suc j)"
    using j Suc.prems
    by (subst copy_payload.simps) (simp add: BUFFER_HEADER_WIDTH_def store_top peek_def)
  have "8 + j < length ?blk" using j len by simp
  from take_Suc_conv_app_nth [OF this]
  have tk: "take (8 + Suc j) ?blk = take (8 + j) blk @ [dat ! j]"
    using j Suc.prems by simp
  have dr: "drop (8 + n) ?blk = drop (8 + n) blk"
    using j by simp
  have td: "take (n - j) (drop j dat) = dat ! j # take (n - Suc j) (drop (Suc j) dat)"
    using j Suc.prems
    by (metis Cons_nth_drop_Suc Suc_diff_Suc less_le_trans take_Suc_Cons)
  have "Suc j \<le> n" using j by simp
  from Suc.hyps(1) [OF d this Suc.prems(2) len]
  show ?case
    unfolding step tk dr td by simp
qed

lemma c_buffer_construct_ok:
  assumes dat: "unat n \<le> length dat"
    and room: "8 + unat n \<le> avail h"
    and nowrap: "unat n < 2 ^ 64 - 8"
  shows "c_buffer_construct h n dat =
     Inr (\<lparr>offset = 0, length_B = ucast n, data = fresh_addr h\<rparr>,
          h\<lparr>blocks := (fresh_addr h, replicate 8 0 @ take (unat n) dat) # blocks h,
            avail := avail h - (8 + unat n)\<rparr>)"
proof -
  have sz: "unat (of_nat BUFFER_HEADER_WIDTH + n * 1) = 8 + unat n"
    using nowrap by (simp add: BUFFER_HEADER_WIDTH_def unat_word_ariths)
  let ?h1 = "h\<lparr>avail := avail h - (8 + unat n)\<rparr>"
  have m: "malloc h (8 + unat n) =
      Some (fresh_addr h, ?h1\<lparr>blocks := (fresh_addr h, replicate (8 + unat n) (junk h)) # blocks h\<rparr>)"
    using room by (simp add: malloc_def place_def)
  show ?thesis
    unfolding c_buffer_construct_def sz m
    using dat
    by (simp add: ASSERT_NON_NULL_def zero_header_top copy_payload_top)
qed

lemma le_word_zeros: "le_word (replicate k 0) = 0"
  by (induction k) simp_all

text \<open>
  C3, as the code has it.  The \<open>length\<close> field of a View is a \<^verbatim>\<open>uint32_t\<close>
  (\<^verbatim>\<open>types.c\<close>: offset and length together fit the 64-bit tag), so the statement
  holds for \<open>n < 2^32\<close>: when the allocator has the \<open>8 + n\<close> bytes,
  \<open>construct(n, bytes)\<close> returns a View with offset 0 and length \<open>n\<close> over a block
  that was not live before, whose header is eight zero bytes (the counter reads 0) and
  whose payload is \<open>bytes\<close>, and \<open>index\<close> at every \<open>j < n\<close> is \<open>bytes[j]\<close>.
\<close>

theorem c_buffer_construct_spec:
  assumes "length bytes = unat n"
    and "unat n < 2 ^ 32"
    and "BUFFER_HEADER_WIDTH + unat n \<le> avail h"
  shows "\<exists>b h'. c_buffer_construct h n bytes = Inr (b, h')
           \<and> offset b = 0 \<and> c_buffer_length b = n
           \<and> map_of (blocks h) (data b) = None
           \<and> map_of (blocks h') (data b) = Some (replicate BUFFER_HEADER_WIDTH 0 @ bytes)
           \<and> load64 h' (c_buffer_refcount b) = Inr 0
           \<and> (\<forall>j. j < n \<longrightarrow> c_buffer_index h' b j = Inr (ucast (bytes ! unat j)))"
proof -
  let ?b = "\<lparr>offset = 0, length_B = ucast n, data = fresh_addr h\<rparr>"
  let ?h' = "h\<lparr>blocks := (fresh_addr h, replicate 8 0 @ take (unat n) bytes) # blocks h,
               avail := avail h - (8 + unat n)\<rparr>"
  have c: "c_buffer_construct h n bytes = Inr (?b, ?h')"
    using assms by (intro c_buffer_construct_ok) (simp_all add: BUFFER_HEADER_WIDTH_def)
  have len: "c_buffer_length ?b = n"
    using assms(2)
    by (simp add: c_buffer_length_def word_unat_eq_iff unat_ucast_32_64 unat_ucast_64_32)
  have idx: "c_buffer_index ?h' ?b j = Inr (ucast (bytes ! unat j))" if "j < n" for j
  proof -
    have "unat j < unat n" using that by (simp add: word_less_nat_alt)
    then show ?thesis
      using assms(1)
      by (simp add: c_buffer_index_def load_def BUFFER_HEADER_WIDTH_def nth_append)
  qed
  have rc: "load64 ?h' (c_buffer_refcount ?b) = Inr 0"
    by (simp add: load64_def c_buffer_refcount_def le_word_zeros)
  show ?thesis
    using c len idx rc assms(1) fresh_addr_unused [of h]
    by (simp add: BUFFER_HEADER_WIDTH_def)
qed

theorem c_buffer_construct_spec_witness:
  "\<exists>b h'. c_buffer_construct \<lparr>blocks = [], avail = 64, junk = 0xAA\<rparr> 3 [0x41, 0x42, 0x43] = Inr (b, h')
      \<and> offset b = 0 \<and> c_buffer_length b = 3
      \<and> c_buffer_index h' b 0 = Inr 0x41 \<and> c_buffer_index h' b 2 = Inr 0x43"
proof -
  let ?h = "\<lparr>blocks = [], avail = 64, junk = 0xAA\<rparr>"
  have "length [0x41, 0x42, 0x43 :: u8] = unat (3 :: u64)" by simp
  moreover have "unat (3 :: u64) < 2 ^ 32" by simp
  moreover have "BUFFER_HEADER_WIDTH + unat (3 :: u64) \<le> avail ?h"
    by (simp add: BUFFER_HEADER_WIDTH_def)
  ultimately obtain b h' where
    c: "c_buffer_construct ?h 3 [0x41, 0x42, 0x43] = Inr (b, h')"
    and o: "offset b = 0" and l: "c_buffer_length b = 3"
    and i: "\<forall>j. j < 3 \<longrightarrow> c_buffer_index h' b j = Inr (ucast ([0x41, 0x42, 0x43 :: u8] ! unat j))"
    using c_buffer_construct_spec [of "[0x41, 0x42, 0x43]" 3 ?h] by blast
  from i have "c_buffer_index h' b 0 = Inr 0x41" by simp
  moreover from i have "c_buffer_index h' b 2 = Inr (ucast ([0x41, 0x42, 0x43 :: u8] ! unat (2::u64)))" by simp
  then have "c_buffer_index h' b 2 = Inr 0x43" by simp
  ultimately show ?thesis using c o l by blast
qed

text \<open>
  For \<open>n = 2^32\<close> the stored length is \<open>n mod 2^32 = 0\<close>: the View returned for
  \<open>2^32\<close> bytes has length 0, not \<open>n\<close>.
\<close>

theorem c_buffer_construct_length_truncated:
  "c_buffer_construct \<lparr>blocks = [], avail = 2 ^ 33, junk = 0\<rparr> (2 ^ 32) (replicate (2 ^ 32) 0x41) =
     Inr (\<lparr>offset = 0, length_B = 0, data = 1\<rparr>,
          \<lparr>blocks = [(1, replicate 8 0 @ replicate (2 ^ 32) 0x41)],
            avail = 2 ^ 33 - (8 + 2 ^ 32), junk = 0\<rparr>)"
proof -
  let ?h = "\<lparr>blocks = [], avail = 2 ^ 33, junk = 0\<rparr>"
  have "unat (2 ^ 32 :: u64) \<le> length (replicate (2 ^ 32) (0x41 :: u8))" by simp
  moreover have "8 + unat (2 ^ 32 :: u64) \<le> avail ?h" by simp
  moreover have "unat (2 ^ 32 :: u64) < 2 ^ 64 - 8" by simp
  ultimately show ?thesis
    by (simp add: c_buffer_construct_ok fresh_addr_def)
qed

section \<open>Reference counting\<close>

lemma length_le_bytes: "length (le_bytes k w) = k"
  by (induction k arbitrary: w) simp_all

lemma le_word_le_bytes: "le_word (le_bytes k w) = take_bit (8 * k) w"
proof (induction k arbitrary: w)
  case 0
  then show ?case by simp
next
  case (Suc k)
  show ?case
    by (simp add: Suc) (rule bit_eqI, auto simp add: bit_simps)
qed

lemma le_word_le_bytes_8: "le_word (le_bytes 8 w) = w"
  by (simp add: le_word_le_bytes take_bit_word_eq_self)

lemma le_bytes_zero: "le_bytes k 0 = replicate k 0"
  by (induction k) simp_all

lemma delete_update_same: "AList.delete k (AList.update k v al) = AList.delete k al"
  by (induction al) auto

lemma load64_header:
  assumes "map_of (blocks h) a = Some blk" and "8 \<le> length blk"
  shows "load64 h (a, 0) = Inr (le_word (take 8 blk))"
  using assms by (simp add: load64_def)

lemma store64_header:
  assumes "map_of (blocks h) a = Some blk" and "8 \<le> length blk"
  shows "store64 h (a, 0) w =
           Inr (h\<lparr>blocks := AList.update a (le_bytes 8 w @ drop 8 blk) (blocks h)\<rparr>)"
  using assms by (simp add: store64_def)

lemma c_buffer_refcount_decrement_cases:
  assumes blk: "map_of (blocks h) (data b) = Some blk" and len: "8 \<le> length blk"
  shows "c_buffer_refcount_decrement h b =
     (if le_word (take 8 blk) = 0
      then Inr (h\<lparr>blocks := AList.delete (data b) (blocks h), avail := avail h + length blk\<rparr>)
      else Inr (h\<lparr>blocks := AList.update (data b)
                   (le_bytes 8 (le_word (take 8 blk) - 1) @ drop 8 blk) (blocks h)\<rparr>))"
proof -
  let ?r = "le_word (take 8 blk)"
  let ?h1 = "h\<lparr>blocks := AList.update (data b) (le_bytes 8 (?r - 1) @ drop 8 blk) (blocks h)\<rparr>"
  have ld: "load64 h (c_buffer_refcount b) = Inr ?r"
    using blk len by (simp add: c_buffer_refcount_def load64_header)
  have st: "store64 h (c_buffer_refcount b) (?r - 1) = Inr ?h1"
    using blk len by (simp add: c_buffer_refcount_def store64_header)
  have fr: "c_buffer_destruct
        (h\<lparr>blocks := AList.update (data b) (le_bytes 8 w @ drop 8 blk) (blocks h)\<rparr>) b =
      Inr (h\<lparr>blocks := AList.delete (data b) (blocks h), avail := avail h + length blk\<rparr>)"
    for w
    using len
    by (simp add: c_buffer_destruct_def free_def update_conv' delete_update_same length_le_bytes)
  show ?thesis
    by (simp add: c_buffer_refcount_decrement_def ld st fr)
qed

lemma c_buffer_refcount_increment_ok:
  assumes blk: "map_of (blocks h) (data b) = Some blk" and len: "8 \<le> length blk"
  shows "c_buffer_refcount_increment h b =
      Inr (h\<lparr>blocks := AList.update (data b)
                   (le_bytes 8 (le_word (take 8 blk) + 1) @ drop 8 blk) (blocks h)\<rparr>)"
  using assms
  by (simp add: c_buffer_refcount_increment_def c_buffer_refcount_def load64_header store64_header)

text \<open>
  C4: on a usable View, \<open>decrement\<close> reads the counter \<open>r\<close>; the Storage is gone
  from the heap afterwards exactly when \<open>r = 0\<close>, and otherwise the counter is
  \<open>r - 1\<close> and the View is still usable with the same bytes.  Consequently, on the
  buffer \<open>construct\<close> has just returned (counter 0), one \<open>decrement\<close> frees the
  Storage, while \<open>increment\<close> followed by \<open>decrement\<close> gives back the very heap
  that \<open>construct\<close> left: counter 0, View usable, bytes as constructed.
\<close>

theorem c_buffer_refcount_decrement_spec:
  "(view_ok h b \<longrightarrow>
      (\<exists>r h'. load64 h (c_buffer_refcount b) = Inr r
          \<and> c_buffer_refcount_decrement h b = Inr h'
          \<and> (map_of (blocks h') (data b) = None \<longleftrightarrow> r = 0)
          \<and> (r \<noteq> 0 \<longrightarrow> load64 h' (c_buffer_refcount b) = Inr (r - 1)
                        \<and> view_ok h' b \<and> view_bytes h' b = view_bytes h b)))
   \<and> (length bytes = unat n \<and> unat n < 2 ^ 32 \<and> BUFFER_HEADER_WIDTH + unat n \<le> avail g \<longrightarrow>
      (\<exists>b0 h1. c_buffer_construct g n bytes = Inr (b0, h1)
          \<and> (\<exists>h2. c_buffer_refcount_decrement h1 b0 = Inr h2
                   \<and> map_of (blocks h2) (data b0) = None)
          \<and> (\<exists>h2. c_buffer_refcount_increment h1 b0 = Inr h2
                   \<and> c_buffer_refcount_decrement h2 b0 = Inr h1)
          \<and> load64 h1 (c_buffer_refcount b0) = Inr 0
          \<and> view_ok h1 b0 \<and> view_bytes h1 b0 = bytes))"
proof (intro conjI impI)
  assume ok: "view_ok h b"
  then obtain blk where blk: "map_of (blocks h) (data b) = Some blk"
    and len: "8 + unat (offset b) + unat (length_B b) \<le> length blk"
    by (auto simp: view_ok_def BUFFER_HEADER_WIDTH_def split: option.splits)
  then have len8: "8 \<le> length blk" by simp
  let ?r = "le_word (take 8 blk)"
  let ?new = "le_bytes 8 (?r - 1) @ drop 8 blk"
  note dec = c_buffer_refcount_decrement_cases [OF blk len8]
  have ld: "load64 h (c_buffer_refcount b) = Inr ?r"
    using blk len8 by (simp add: c_buffer_refcount_def load64_header)
  show "\<exists>r h'. load64 h (c_buffer_refcount b) = Inr r
          \<and> c_buffer_refcount_decrement h b = Inr h'
          \<and> (map_of (blocks h') (data b) = None \<longleftrightarrow> r = 0)
          \<and> (r \<noteq> 0 \<longrightarrow> load64 h' (c_buffer_refcount b) = Inr (r - 1)
                        \<and> view_ok h' b \<and> view_bytes h' b = view_bytes h b)"
  proof (cases "?r = 0")
    case True
    then show ?thesis
      using ld dec by (simp add: delete_conv')
  next
    case False
    let ?h' = "h\<lparr>blocks := AList.update (data b) ?new (blocks h)\<rparr>"
    have m: "map_of (blocks ?h') (data b) = Some ?new" by (simp add: update_conv')
    have l8: "8 \<le> length ?new" by (simp add: length_le_bytes)
    have tk: "take 8 ?new = le_bytes 8 (?r - 1)" by (simp add: length_le_bytes)
    have "load64 ?h' (c_buffer_refcount b) = Inr (?r - 1)"
      unfolding c_buffer_refcount_def load64_header [OF m l8] tk le_word_le_bytes_8 ..
    moreover have "view_ok ?h' b"
      using len by (simp add: view_ok_def update_conv' length_le_bytes BUFFER_HEADER_WIDTH_def)
    moreover have "view_bytes ?h' b = view_bytes h b"
      using blk len8
      by (simp add: view_bytes_def update_conv' length_le_bytes BUFFER_HEADER_WIDTH_def add.commute)
    ultimately show ?thesis
      using False ld dec by (simp add: update_conv')
  qed
next
  assume "length bytes = unat n \<and> unat n < 2 ^ 32 \<and> BUFFER_HEADER_WIDTH + unat n \<le> avail g"
  then have a: "length bytes = unat n" "unat n < 2 ^ 32" "8 + unat n \<le> avail g"
    by (simp_all add: BUFFER_HEADER_WIDTH_def)
  let ?b = "\<lparr>offset = 0, length_B = ucast n, data = fresh_addr g\<rparr>"
  let ?blk = "replicate 8 0 @ bytes"
  let ?h1 = "g\<lparr>blocks := (fresh_addr g, ?blk) # blocks g,
               avail := avail g - (8 + unat n)\<rparr>"
  have c: "c_buffer_construct g n bytes = Inr (?b, ?h1)"
    using a by (simp add: c_buffer_construct_ok)
  have m: "map_of (blocks ?h1) (data ?b) = Some ?blk" by simp
  have l8: "8 \<le> length ?blk" by simp
  have r0: "le_word (take 8 ?blk) = 0" by (simp add: le_word_zeros)
  have d1: "\<exists>h2. c_buffer_refcount_decrement ?h1 ?b = Inr h2
                   \<and> map_of (blocks h2) (data ?b) = None"
    unfolding c_buffer_refcount_decrement_cases [OF m l8] r0
    by (simp add: delete_conv' fresh_addr_unused)
  let ?blk2 = "le_bytes 8 1 @ bytes"
  let ?h2 = "g\<lparr>blocks := (fresh_addr g, ?blk2) # blocks g,
               avail := avail g - (8 + unat n)\<rparr>"
  have inc: "c_buffer_refcount_increment ?h1 ?b = Inr ?h2"
    unfolding c_buffer_refcount_increment_ok [OF m l8] r0 by simp
  have m2: "map_of (blocks ?h2) (data ?b) = Some ?blk2" by simp
  have l82: "8 \<le> length ?blk2" by (simp add: length_le_bytes)
  have r1: "le_word (take 8 ?blk2) = 1" by (simp add: length_le_bytes le_word_le_bytes_8)
  have d2: "c_buffer_refcount_decrement ?h2 ?b = Inr ?h1"
    unfolding c_buffer_refcount_decrement_cases [OF m2 l82] r1
    by (simp add: length_le_bytes le_bytes_zero)
  have rc: "load64 ?h1 (c_buffer_refcount ?b) = Inr 0"
    by (simp add: load64_def c_buffer_refcount_def le_word_zeros)
  have vo: "view_ok ?h1 ?b"
    using a by (simp add: view_ok_def BUFFER_HEADER_WIDTH_def unat_ucast_64_32)
  have vb: "view_bytes ?h1 ?b = bytes"
    using a by (simp add: view_bytes_def BUFFER_HEADER_WIDTH_def unat_ucast_64_32)
  show "\<exists>b0 h1. c_buffer_construct g n bytes = Inr (b0, h1)
          \<and> (\<exists>h2. c_buffer_refcount_decrement h1 b0 = Inr h2
                   \<and> map_of (blocks h2) (data b0) = None)
          \<and> (\<exists>h2. c_buffer_refcount_increment h1 b0 = Inr h2
                   \<and> c_buffer_refcount_decrement h2 b0 = Inr h1)
          \<and> load64 h1 (c_buffer_refcount b0) = Inr 0
          \<and> view_ok h1 b0 \<and> view_bytes h1 b0 = bytes"
    using c d1 inc d2 rc vo vb by blast
qed

theorem c_buffer_refcount_decrement_spec_witness:
  "view_ok \<lparr>blocks = [(1, [1, 0, 0, 0, 0, 0, 0, 0, 7, 9])], avail = 0, junk = 0\<rparr>
           \<lparr>offset = 0, length_B = 2, data = 1\<rparr>
   \<and> length [1, 2 :: u8] = unat (2 :: u64) \<and> unat (2 :: u64) < 2 ^ 32
   \<and> BUFFER_HEADER_WIDTH + unat (2 :: u64) \<le> avail \<lparr>blocks = [], avail = 64, junk = 0xAA\<rparr>
   \<and> (\<exists>h'. c_buffer_refcount_decrement
               \<lparr>blocks = [(1, [1, 0, 0, 0, 0, 0, 0, 0, 7, 9])], avail = 0, junk = 0\<rparr>
               \<lparr>offset = 0, length_B = 2, data = 1\<rparr> = Inr h'
            \<and> map_of (blocks h') 1 \<noteq> None
            \<and> load64 h' (c_buffer_refcount \<lparr>offset = 0, length_B = 2, data = 1\<rparr>) = Inr 0)
   \<and> (\<exists>b0 h1 h2. c_buffer_construct \<lparr>blocks = [], avail = 64, junk = 0xAA\<rparr> 2 [1, 2] = Inr (b0, h1)
            \<and> c_buffer_refcount_decrement h1 b0 = Inr h2
            \<and> map_of (blocks h2) (data b0) = None)"
proof -
  let ?H = "\<lparr>blocks = [(1, [1, 0, 0, 0, 0, 0, 0, 0, 7, 9 :: u8])], avail = 0, junk = 0\<rparr>"
  let ?B = "\<lparr>offset = 0, length_B = 2, data = 1\<rparr>"
  let ?E = "\<lparr>blocks = [], avail = 64, junk = 0xAA\<rparr>"
  have ok: "view_ok ?H ?B"
    by (simp add: view_ok_def BUFFER_HEADER_WIDTH_def)
  have pre: "length [1, 2 :: u8] = unat (2 :: u64) \<and> unat (2 :: u64) < 2 ^ 32
      \<and> BUFFER_HEADER_WIDTH + unat (2 :: u64) \<le> avail ?E"
    by (simp add: BUFFER_HEADER_WIDTH_def)
  have r: "load64 ?H (c_buffer_refcount ?B) = Inr 1"
    by (simp add: load64_def c_buffer_refcount_def)
  note spec = c_buffer_refcount_decrement_spec [where h = ?H and b = ?B and bytes = "[1, 2]" and n = 2 and g = ?E]
  from spec ok r obtain h' where
    "c_buffer_refcount_decrement ?H ?B = Inr h'"
    "map_of (blocks h') (data ?B) \<noteq> None"
    "load64 h' (c_buffer_refcount ?B) = Inr 0"
    by auto
  then have first: "\<exists>h'. c_buffer_refcount_decrement ?H ?B = Inr h'
      \<and> map_of (blocks h') 1 \<noteq> None \<and> load64 h' (c_buffer_refcount ?B) = Inr 0"
    by auto
  from spec pre have second: "\<exists>b0 h1 h2. c_buffer_construct ?E 2 [1, 2] = Inr (b0, h1)
      \<and> c_buffer_refcount_decrement h1 b0 = Inr h2 \<and> map_of (blocks h2) (data b0) = None"
    by blast
  show ?thesis using ok pre first second by blast
qed

section \<open>Text interop\<close>

lemma replicate_5: "replicate 5 x = [x, x, x, x, x]"
  by (simp add: eval_nat_numeral)

lemma replicate_8: "replicate 8 x = [x, x, x, x, x, x, x, x]"
  by (simp add: eval_nat_numeral)

lemma scan_terminator_finds:
  assumes "n < length text" and "0 \<notin> set (drop (Suc n) text)"
  shows "scan_terminator (text @ 0 # rest) n = Inr (length text)"
  using assms
proof (induction "length text - n" arbitrary: n)
  case 0
  then show ?case by simp
next
  case (Suc d)
  show ?case
  proof (cases "Suc n < length text")
    case True
    then have nz: "text ! Suc n \<noteq> 0"
      using Suc.prems(2) by (metis Cons_nth_drop_Suc list.set_intros(1))
    have rest: "0 \<notin> set (drop (Suc (Suc n)) text)"
      using Suc.prems(2) by (metis True Cons_nth_drop_Suc list.set_intros(2))
    have d: "d = length text - Suc n" using Suc.hyps(2) by simp
    show ?thesis
      using True nz Suc.hyps(1) [OF d True rest]
      by (subst scan_terminator.simps) (simp add: peek_def nth_append)
  next
    case False
    then have "Suc n = length text" using Suc.prems(1) by simp
    then show ?thesis
      by (subst scan_terminator.simps) (simp add: peek_def nth_append)
  qed
qed

text \<open>For a text that is not empty the count is the number of bytes before the
  terminator, whatever follows the terminator in memory.\<close>

lemma c_buffer_construct_from_nonempty_text:
  assumes "text \<noteq> []" and "0 \<notin> set (tl text)"
    and "length text < 2 ^ 32" and "8 + length text \<le> avail h"
  shows "c_buffer_construct_from_null_terminated_string h (text @ 0 # rest) =
     Inr (\<lparr>offset = 0, length_B = of_nat (length text), data = fresh_addr h\<rparr>,
          h\<lparr>blocks := (fresh_addr h, replicate 8 0 @ text) # blocks h,
            avail := avail h - (8 + length text)\<rparr>)"
proof -
  have sc: "scan_terminator (text @ 0 # rest) 0 = Inr (length text)"
    using assms(1,2) by (intro scan_terminator_finds) (simp_all add: drop_Suc)
  have un: "unat (of_nat (length text) :: u64) = length text"
    using assms(3) by (simp add: unat_of_nat)
  have uc: "(ucast (of_nat (length text) :: u64) :: u32) = of_nat (length text)"
    using assms(3) by (simp add: word_unat_eq_iff unat_ucast_64_32 un unat_of_nat)
  show ?thesis
    unfolding c_buffer_construct_from_null_terminated_string_def sc
    using assms(3,4)
    by (simp add: c_buffer_construct_ok un uc)
qed

text \<open>
  C2: \<open>from_external_text\<close> returns a buffer with the bytes before the first
  terminator, and a text whose first byte is the terminator gives a buffer of length
  0.  The loop \<^verbatim>\<open>while (data_nt[++n]);\<close> increments before it tests, so the byte
  at index 0 is never examined and the count is at least 1.  For the empty text
  followed in memory by \<open>0x41 0x00\<close> the code returns a buffer of length 2 holding
  \<open>0x00 0x41\<close>; for the empty text in a one-byte block it reads past the block.
\<close>

theorem c_buffer_construct_from_empty_text:
  "c_buffer_construct_from_null_terminated_string
      \<lparr>blocks = [], avail = 64, junk = 0xAA\<rparr> [0, 0x41, 0] =
     Inr (\<lparr>offset = 0, length_B = 2, data = 1\<rparr>,
          \<lparr>blocks = [(1, [0, 0, 0, 0, 0, 0, 0, 0, 0, 0x41])], avail = 54, junk = 0xAA\<rparr>)
   \<and> c_buffer_construct_from_null_terminated_string
      \<lparr>blocks = [], avail = 64, junk = 0xAA\<rparr> [0] = Inl OutOfBounds"
proof -
  have s1: "scan_terminator [0, 0x41, 0] 0 = Inr 2"
    by (simp add: scan_terminator.simps peek_def)
  have s2: "scan_terminator [0] 0 = Inl OutOfBounds"
    by (simp add: scan_terminator.simps peek_def)
  show ?thesis
    unfolding c_buffer_construct_from_null_terminated_string_def s1 s2
    by (simp add: c_buffer_construct_ok fresh_addr_def replicate_8)
qed

section \<open>UTF-8\<close>

lemma show_Char_bytes:
  "c_buffer_show_Char h 0x41 = c_buffer_construct_from_null_terminated_string h ([0x41] @ 0 # [0, 0, 0])"
  "c_buffer_show_Char h 0x3B1 = c_buffer_construct_from_null_terminated_string h ([0xCE, 0xB1] @ 0 # [0, 0])"
  "c_buffer_show_Char h 0x20AC = c_buffer_construct_from_null_terminated_string h ([0xE2, 0x82, 0xAC] @ 0 # [0])"
  "c_buffer_show_Char h 0x1F600 = c_buffer_construct_from_null_terminated_string h ([0xF0, 0x9F, 0x98, 0x80] @ 0 # [])"
  by (simp_all add: c_buffer_show_Char_def replicate_5)

text \<open>
  C5: for the codepoints \<open>0x41\<close>, \<open>0x3B1\<close>, \<open>0x20AC\<close> and \<open>0x1F600\<close>,
  \<^verbatim>\<open>c_buffer_show_Char\<close> followed by \<^verbatim>\<open>c_buffer_character_at\<close> at offset 0 of
  the buffer it returned gives the codepoint back, in every heap whose allocator has
  the twelve bytes of the longest of the four buffers.
\<close>

theorem show_Char_character_at_roundtrip:
  assumes "12 \<le> avail h"
  shows "bind_f (c_buffer_show_Char h 0x41) (\<lambda>(b, h'). c_buffer_character_at h' b 0) = Inr 0x41
       \<and> bind_f (c_buffer_show_Char h 0x3B1) (\<lambda>(b, h'). c_buffer_character_at h' b 0) = Inr 0x3B1
       \<and> bind_f (c_buffer_show_Char h 0x20AC) (\<lambda>(b, h'). c_buffer_character_at h' b 0) = Inr 0x20AC
       \<and> bind_f (c_buffer_show_Char h 0x1F600) (\<lambda>(b, h'). c_buffer_character_at h' b 0) = Inr 0x1F600"
proof (intro conjI)
  show "bind_f (c_buffer_show_Char h 0x41) (\<lambda>(b, h'). c_buffer_character_at h' b 0) = Inr 0x41"
    unfolding show_Char_bytes using assms
    by (subst c_buffer_construct_from_nonempty_text)
       (simp_all add: c_buffer_character_at_def c_buffer_bytes_def load_def BUFFER_HEADER_WIDTH_def
          nth_append)
  show "bind_f (c_buffer_show_Char h 0x3B1) (\<lambda>(b, h'). c_buffer_character_at h' b 0) = Inr 0x3B1"
    unfolding show_Char_bytes using assms
    by (subst c_buffer_construct_from_nonempty_text)
       (simp_all add: c_buffer_character_at_def c_buffer_bytes_def load_def BUFFER_HEADER_WIDTH_def
          nth_append)
  show "bind_f (c_buffer_show_Char h 0x20AC) (\<lambda>(b, h'). c_buffer_character_at h' b 0) = Inr 0x20AC"
    unfolding show_Char_bytes using assms
    by (subst c_buffer_construct_from_nonempty_text)
       (simp_all add: c_buffer_character_at_def c_buffer_bytes_def load_def BUFFER_HEADER_WIDTH_def
          nth_append)
  show "bind_f (c_buffer_show_Char h 0x1F600) (\<lambda>(b, h'). c_buffer_character_at h' b 0) = Inr 0x1F600"
    unfolding show_Char_bytes using assms
    by (subst c_buffer_construct_from_nonempty_text)
       (simp_all add: c_buffer_character_at_def c_buffer_bytes_def load_def BUFFER_HEADER_WIDTH_def
          nth_append)
qed

theorem show_Char_character_at_roundtrip_witness:
  "(12 :: nat) \<le> avail \<lparr>blocks = [], avail = 64, junk = 0xAA\<rparr>
   \<and> bind_f (c_buffer_show_Char \<lparr>blocks = [], avail = 64, junk = 0xAA\<rparr> 0x1F600)
         (\<lambda>(b, h'). c_buffer_character_at h' b 0) = Inr 0x1F600"
  using show_Char_character_at_roundtrip [of "\<lparr>blocks = [], avail = 64, junk = 0xAA\<rparr>"]
  by simp

lemma leading_byte_masks:
  "\<forall>x :: u8. (x AND 0xE0 = 0xC0) = (0xC0 \<le> x \<and> x \<le> 0xDF)"
  "\<forall>x :: u8. (x AND 0xF0 = 0xE0) = (0xE0 \<le> x \<and> x \<le> 0xEF)"
  "\<forall>x :: u8. (x AND 0xF8 = 0xF0) = (0xF0 \<le> x \<and> x \<le> 0xF7)"
  by code_simp+

text \<open>The four tests select the leading bytes of UTF-8: \<open>0x00\<close> to \<open>0x7F\<close>,
  \<open>0xC0\<close> to \<open>0xDF\<close>, \<open>0xE0\<close> to \<open>0xEF\<close> and \<open>0xF0\<close> to \<open>0xF7\<close>.\<close>

lemma sequence_width_ranges:
  "sequence_width x =
     (if x < 0x80 then 1
      else if 0xC0 \<le> x \<and> x \<le> 0xDF then 2
      else if 0xE0 \<le> x \<and> x \<le> 0xEF then 3
      else if 0xF0 \<le> x \<and> x \<le> 0xF7 then 4
      else 0)"
  by (simp add: sequence_width_def leading_byte_masks)

lemma load_in_view:
  assumes "view_ok h b" and "j < unat (length_B b)"
  shows "load h (c_buffer_bytes b) j = Inr (view_bytes h b ! j)"
  using assms
  by (auto simp: view_ok_def view_bytes_def load_def c_buffer_bytes_def split: option.splits)

lemma c_buffer_index_in_view:
  assumes "view_ok h b" and "i < c_buffer_length b"
  shows "c_buffer_index h b i = Inr (ucast (view_bytes h b ! unat i))"
proof -
  have "unat i < unat (length_B b)"
    using assms(2) by (simp add: word_less_nat_alt c_buffer_length_def unat_ucast_32_64)
  from load_in_view [OF assms(1) this] show ?thesis
    by (simp add: c_buffer_index_def c_buffer_bytes_def)
qed

lemma ucast_8_64_8: "(ucast (ucast (x :: u8) :: u64) :: u8) = x"
  by (simp add: ucast_up_ucast_id is_up)

lemma unat_index_plus:
  assumes "unat i < unat (length_B b)" and "k < 8"
  shows "unat (i + of_nat k :: u64) = unat i + k"
proof -
  have "unat (length_B b) < 2 ^ 32" using unsigned_less [of "length_B b"] by simp
  then have "unat i + k < 2 ^ 64" using assms by simp
  moreover have "unat (of_nat k :: u64) = k" using assms(2) by (simp add: unat_of_nat)
  ultimately show ?thesis by (simp add: unat_word_ariths)
qed

lemma index_plus_less:
  assumes "unat i < unat (length_B b)" and "k < 8"
  shows "(i + of_nat k < (ucast (length_B b) :: u64)) = (unat i + k < unat (length_B b))"
  using unat_index_plus [OF assms]
  by (simp add: word_less_nat_alt unat_ucast_32_64)

text \<open>
  C6: on a usable View \<open>b\<close> and an index \<open>i < length(b)\<close>, the byte \<open>v\<close> at \<open>i\<close>
  is read, and when its classification asks for 2, 3 or 4 bytes and \<open>i\<close> plus that
  count exceeds the length of \<open>b\<close>, \<open>character_at(b, i)\<close> is 0.
\<close>

theorem c_buffer_character_at_truncated:
  assumes "view_ok h b" and "i < c_buffer_length b"
  shows "\<exists>v. c_buffer_index h b i = Inr v
           \<and> (sequence_width (ucast v) \<in> {2, 3, 4}
                \<and> unat (c_buffer_length b) < unat i + sequence_width (ucast v)
              \<longrightarrow> c_buffer_character_at h b i = Inr 0)"
proof -
  let ?fb = "view_bytes h b ! unat i"
  have i: "unat i < unat (length_B b)"
    using assms(2) by (simp add: word_less_nat_alt c_buffer_length_def unat_ucast_32_64)
  have ld: "load h (c_buffer_bytes b) (unat i) = Inr ?fb"
    by (rule load_in_view [OF assms(1) i])
  have l: "unat (c_buffer_length b) = unat (length_B b)"
    by (simp add: c_buffer_length_def unat_ucast_32_64)
  have p1: "(i + 1 < (ucast (length_B b) :: u64)) = (unat i + 1 < unat (length_B b))"
    using index_plus_less [OF i, of 1] by simp
  have p2: "(i + 2 < (ucast (length_B b) :: u64)) = (unat i + 2 < unat (length_B b))"
    using index_plus_less [OF i, of 2] by simp
  have p3: "(i + 3 < (ucast (length_B b) :: u64)) = (unat i + 3 < unat (length_B b))"
    using index_plus_less [OF i, of 3] by simp
  have "c_buffer_character_at h b i = Inr 0"
    if "sequence_width ?fb \<in> {2, 3, 4}"
      and "unat (c_buffer_length b) < unat i + sequence_width ?fb"
    using that unfolding l
    by (auto simp: c_buffer_character_at_def ld p1 p2 p3 sequence_width_def split: if_splits)
  then show ?thesis
    using c_buffer_index_in_view [OF assms] by (simp add: ucast_8_64_8)
qed

theorem c_buffer_character_at_truncated_witness:
  "view_ok \<lparr>blocks = [(1, [0, 0, 0, 0, 0, 0, 0, 0, 0xE2, 0x82])], avail = 0, junk = 0\<rparr>
           \<lparr>offset = 0, length_B = 2, data = 1\<rparr>
   \<and> (0 :: u64) < c_buffer_length \<lparr>offset = 0, length_B = 2, data = 1\<rparr>
   \<and> c_buffer_index \<lparr>blocks = [(1, [0, 0, 0, 0, 0, 0, 0, 0, 0xE2, 0x82])], avail = 0, junk = 0\<rparr>
          \<lparr>offset = 0, length_B = 2, data = 1\<rparr> 0 = Inr 0xE2
   \<and> sequence_width 0xE2 = 3
   \<and> c_buffer_character_at \<lparr>blocks = [(1, [0, 0, 0, 0, 0, 0, 0, 0, 0xE2, 0x82])], avail = 0, junk = 0\<rparr>
          \<lparr>offset = 0, length_B = 2, data = 1\<rparr> 0 = Inr 0"
proof -
  let ?H = "\<lparr>blocks = [(1, [0, 0, 0, 0, 0, 0, 0, 0, 0xE2, 0x82 :: u8])], avail = 0, junk = 0\<rparr>"
  let ?B = "\<lparr>offset = 0, length_B = 2, data = 1\<rparr>"
  have ok: "view_ok ?H ?B"
    by (simp add: view_ok_def BUFFER_HEADER_WIDTH_def)
  have lt: "(0 :: u64) < c_buffer_length ?B"
    by (simp add: c_buffer_length_def)
  have ix: "c_buffer_index ?H ?B 0 = Inr 0xE2"
    by (simp add: c_buffer_index_def load_def BUFFER_HEADER_WIDTH_def)
  have sw: "sequence_width 0xE2 = 3"
    by (simp add: sequence_width_def)
  from c_buffer_character_at_truncated [OF ok lt]
  obtain v where iv: "c_buffer_index ?H ?B 0 = Inr v"
    and imp: "sequence_width (ucast v) \<in> {2, 3, 4}
              \<and> unat (c_buffer_length ?B) < unat (0 :: u64) + sequence_width (ucast v)
             \<longrightarrow> c_buffer_character_at ?H ?B 0 = Inr 0"
    by blast
  from iv ix have v: "v = 0xE2" by simp
  have "c_buffer_character_at ?H ?B 0 = Inr 0"
    using imp unfolding v by (simp add: sw c_buffer_length_def)
  with ok lt ix sw show ?thesis by blast
qed

text \<open>
  C10: on a usable View \<open>b\<close> and an index \<open>i < length(b)\<close>, when the byte at \<open>i\<close>
  is a continuation byte (\<open>0x80\<close> to \<open>0xBF\<close>) or is \<open>0xF8\<close> or above, none of
  the four tests applies and \<open>character_at(b, i)\<close> is 0.
\<close>

theorem c_buffer_character_at_no_leading_byte:
  assumes "view_ok h b" and "i < c_buffer_length b"
  shows "\<exists>v. c_buffer_index h b i = Inr v
           \<and> ((0x80 \<le> v \<and> v \<le> 0xBF) \<or> 0xF8 \<le> v
              \<longrightarrow> c_buffer_character_at h b i = Inr 0)"
proof -
  let ?fb = "view_bytes h b ! unat i"
  have i: "unat i < unat (length_B b)"
    using assms(2) by (simp add: word_less_nat_alt c_buffer_length_def unat_ucast_32_64)
  have ld: "load h (c_buffer_bytes b) (unat i) = Inr ?fb"
    by (rule load_in_view [OF assms(1) i])
  have "c_buffer_character_at h b i = Inr 0"
    if "(0x80 \<le> (ucast ?fb :: u64) \<and> (ucast ?fb :: u64) \<le> 0xBF) \<or> 0xF8 \<le> (ucast ?fb :: u64)"
  proof -
    from that have "(0x80 \<le> ?fb \<and> ?fb \<le> 0xBF) \<or> 0xF8 \<le> ?fb"
      by (simp add: word_le_nat_alt unat_ucast_8_64)
    then have "\<not> ?fb < 0x80" "?fb AND 0xE0 \<noteq> 0xC0" "?fb AND 0xF0 \<noteq> 0xE0" "?fb AND 0xF8 \<noteq> 0xF0"
      by (auto simp: leading_byte_masks word_le_nat_alt word_less_nat_alt)
    then show ?thesis
      by (simp add: c_buffer_character_at_def ld)
  qed
  then show ?thesis
    using c_buffer_index_in_view [OF assms] by simp
qed

theorem c_buffer_character_at_no_leading_byte_witness:
  "view_ok \<lparr>blocks = [(1, [0, 0, 0, 0, 0, 0, 0, 0, 0x80, 0x41])], avail = 0, junk = 0\<rparr>
           \<lparr>offset = 0, length_B = 2, data = 1\<rparr>
   \<and> (0 :: u64) < c_buffer_length \<lparr>offset = 0, length_B = 2, data = 1\<rparr>
   \<and> c_buffer_index \<lparr>blocks = [(1, [0, 0, 0, 0, 0, 0, 0, 0, 0x80, 0x41])], avail = 0, junk = 0\<rparr>
          \<lparr>offset = 0, length_B = 2, data = 1\<rparr> 0 = Inr 0x80
   \<and> c_buffer_character_at \<lparr>blocks = [(1, [0, 0, 0, 0, 0, 0, 0, 0, 0x80, 0x41])], avail = 0, junk = 0\<rparr>
          \<lparr>offset = 0, length_B = 2, data = 1\<rparr> 0 = Inr 0"
proof -
  let ?H = "\<lparr>blocks = [(1, [0, 0, 0, 0, 0, 0, 0, 0, 0x80, 0x41 :: u8])], avail = 0, junk = 0\<rparr>"
  let ?B = "\<lparr>offset = 0, length_B = 2, data = 1\<rparr>"
  have ok: "view_ok ?H ?B"
    by (simp add: view_ok_def BUFFER_HEADER_WIDTH_def)
  have lt: "(0 :: u64) < c_buffer_length ?B"
    by (simp add: c_buffer_length_def)
  have ix: "c_buffer_index ?H ?B 0 = Inr 0x80"
    by (simp add: c_buffer_index_def load_def BUFFER_HEADER_WIDTH_def)
  from c_buffer_character_at_no_leading_byte [OF ok lt]
  obtain v where iv: "c_buffer_index ?H ?B 0 = Inr v"
    and imp: "(0x80 \<le> v \<and> v \<le> 0xBF) \<or> 0xF8 \<le> v \<longrightarrow> c_buffer_character_at ?H ?B 0 = Inr 0"
    by blast
  from iv ix have v: "v = 0x80" by simp
  have "c_buffer_character_at ?H ?B 0 = Inr 0"
    using imp unfolding v by simp
  with ok lt ix show ?thesis by blast
qed

section \<open>To external text\<close>

lemma load_block:
  "map_of (blocks h) a = Some src \<Longrightarrow> k + j < length src \<Longrightarrow> load h (a, k) j = Inr (src ! (k + j))"
  by (simp add: load_def)

lemma take_drop_step:
  assumes "j < len" and "k + len \<le> length src"
  shows "take (len - j) (drop (k + j) src) = src ! (k + j) # take (len - Suc j) (drop (k + Suc j) src)"
proof -
  have "k + j < length src" using assms by simp
  then have "drop (k + j) src = src ! (k + j) # drop (Suc (k + j)) src"
    by (simp add: Cons_nth_drop_Suc)
  moreover have "len - j = Suc (len - Suc j)" using assms(1) by simp
  ultimately show ?thesis by simp
qed

lemma count_zero_runes_ok:
  assumes "map_of (blocks h) a = Some src" and "k + len \<le> length src" and "j \<le> len"
  shows "count_zero_runes h (a, k) len j z =
           Inr (z + of_nat (count_list (take (len - j) (drop (k + j) src)) 0))"
  using assms(3)
proof (induction "len - j" arbitrary: j z)
  case 0
  then show ?case by (subst count_zero_runes.simps) simp
next
  case (Suc d)
  then have j: "j < len" and d: "d = len - Suc j" by simp_all
  have ld: "load h (a, k) j = Inr (src ! (k + j))"
    using j assms(1,2) by (intro load_block) simp_all
  have "Suc j \<le> len" using j by simp
  note IH = Suc.hyps(1) [OF d this]
  show ?case
    by (subst count_zero_runes.simps)
       (simp add: j ld IH take_drop_step [OF j assms(2)])
qed


lemma length_escaped: "length (escaped bs) = length bs + count_list bs 0"
  by (induction bs) simp_all

lemma zero_notin_escaped: "0 \<notin> set (escaped bs)"
  by (induction bs) simp_all

lemma escape_zero_runes_top:
  assumes "a \<noteq> buf" and "map_of bs a = Some src" and "k + len \<le> length src"
    and "j \<le> len"
    and "i + length (escaped (take (len - j) (drop (k + j) src))) \<le> length blk"
  shows "escape_zero_runes (h\<lparr>blocks := (buf, blk) # bs\<rparr>) (a, k) buf len j i =
     Inr (h\<lparr>blocks := (buf, take i blk @ escaped (take (len - j) (drop (k + j) src))
                               @ drop (i + length (escaped (take (len - j) (drop (k + j) src)))) blk) # bs\<rparr>)"
  using assms(4,5)
proof (induction "len - j" arbitrary: j i blk)
  case 0
  then show ?case by (subst escape_zero_runes.simps) simp
next
  case (Suc d)
  then have j: "j < len" and d: "d = len - Suc j" by simp_all
  let ?v = "src ! (k + j)"
  let ?rest = "take (len - Suc j) (drop (k + Suc j) src)"
  have td: "take (len - j) (drop (k + j) src) = ?v # ?rest"
    by (rule take_drop_step [OF j assms(3)])
  have ld: "load (h'\<lparr>blocks := (buf, blk') # bs\<rparr>) (a, k) j = Inr ?v" for h' :: heap and blk'
    using j assms(1,2,3) by (simp add: load_def)
  have sj: "Suc j \<le> len" using j by simp
  show ?case
  proof (cases "?v = 0")
    case True
    have room: "Suc i < length blk" and room': "Suc (Suc i) + length (escaped ?rest) \<le> length blk"
      using Suc.prems(2) True unfolding td by simp_all
    let ?blk = "blk[i := 0xC0, Suc i := 0x80]"
    have len': "Suc (Suc i) + length (escaped ?rest) \<le> length ?blk" using room' by simp
    note IH = Suc.hyps(1) [OF d sj len']
    have tk: "take (Suc (Suc i)) ?blk = take i blk @ [0xC0, 0x80]"
      using room by (simp add: take_Suc_conv_app_nth)
    have dr: "drop (Suc (Suc i) + length (escaped ?rest)) ?blk = drop (Suc (Suc i) + length (escaped ?rest)) blk"
      by simp
    have step: "escape_zero_runes (h\<lparr>blocks := (buf, blk) # bs\<rparr>) (a, k) buf len j i =
        escape_zero_runes (h\<lparr>blocks := (buf, ?blk) # bs\<rparr>) (a, k) buf len (Suc j) (Suc (Suc i))"
      using j room True
      by (subst escape_zero_runes.simps) (simp add: ld store_top load_top)
    show ?thesis
      unfolding step IH tk dr td using True by simp
  next
    case False
    have room: "i < length blk" and room': "Suc i + length (escaped ?rest) \<le> length blk"
      using Suc.prems(2) False unfolding td by simp_all
    let ?blk = "blk[i := ?v]"
    have len': "Suc i + length (escaped ?rest) \<le> length ?blk" using room' by simp
    note IH = Suc.hyps(1) [OF d sj len']
    have tk: "take (Suc i) ?blk = take i blk @ [?v]"
      using room by (simp add: take_Suc_conv_app_nth)
    have dr: "drop (Suc i + length (escaped ?rest)) ?blk = drop (Suc i + length (escaped ?rest)) blk"
      by simp
    have step: "escape_zero_runes (h\<lparr>blocks := (buf, blk) # bs\<rparr>) (a, k) buf len j i =
        escape_zero_runes (h\<lparr>blocks := (buf, ?blk) # bs\<rparr>) (a, k) buf len (Suc j) (Suc i)"
      using j room False
      by (subst escape_zero_runes.simps) (simp add: ld store_top load_top)
    show ?thesis
      unfolding step IH tk dr td using False by simp
  qed
qed

text \<open>
  C8: on a usable View, when the allocator has the bytes, \<open>to_external_text\<close>
  returns a block that was not live before and holds the payload with every zero
  byte replaced by \<open>0xC0 0x80\<close> and every other byte unchanged, in order, followed
  by one \<open>0x00\<close>; no other byte of the block is zero, and the block has
  \<open>length(view)\<close> plus the number of zero bytes plus one bytes.
\<close>

theorem c_buffer_as_null_terminated_string_spec:
  assumes "view_ok h b"
    and "unat (c_buffer_length b) + count_list (view_bytes h b) 0 + 1 \<le> avail h"
  shows "\<exists>buf h'. c_buffer_as_null_terminated_string h b = Inr (buf, h')
           \<and> map_of (blocks h) buf = None
           \<and> map_of (blocks h') buf = Some (escaped (view_bytes h b) @ [0])
           \<and> 0 \<notin> set (escaped (view_bytes h b))
           \<and> length (escaped (view_bytes h b) @ [0])
               = unat (c_buffer_length b) + count_list (view_bytes h b) 0 + 1"
proof -
  obtain src where src: "map_of (blocks h) (data b) = Some src"
    and fit: "8 + unat (offset b) + unat (length_B b) \<le> length src"
    using assms(1) by (auto simp: view_ok_def BUFFER_HEADER_WIDTH_def split: option.splits)
  let ?len = "unat (length_B b)"
  let ?k = "8 + unat (offset b)"
  let ?vb = "take ?len (drop ?k src)"
  let ?z = "count_list ?vb 0"
  have vb: "view_bytes h b = ?vb"
    using src by (simp add: view_bytes_def BUFFER_HEADER_WIDTH_def)
  have lvb: "length ?vb = ?len" using fit by simp
  have l: "unat (c_buffer_length b) = ?len"
    by (simp add: c_buffer_length_def unat_ucast_32_64)
  have bytes: "c_buffer_bytes b = (data b, ?k)"
    by (simp add: c_buffer_bytes_def BUFFER_HEADER_WIDTH_def)
  have zle: "?z \<le> ?len"
    using count_le_length [of ?vb 0] lvb by simp
  have l32: "?len < 2 ^ 32" using unsigned_less [of "length_B b"] by simp
  have cz: "count_zero_runes h (data b, ?k) ?len 0 0 = Inr (of_nat ?z)"
    using count_zero_runes_ok [OF src, of ?k ?len 0 0] fit by simp
  have uz: "unat (of_nat ?z :: u64) = ?z"
    using zle l32 by (simp add: unat_of_nat)
  have un: "unat (c_buffer_length b + of_nat ?z) = ?len + ?z"
    using zle l32 by (simp add: unat_word_ariths l uz)
  have "unat (c_buffer_length b + of_nat ?z + 1) =
      (unat (c_buffer_length b + of_nat ?z) + unat (1 :: u64)) mod 2 ^ LENGTH(64)"
    by (rule unat_word_ariths(1))
  then have un1: "unat ((c_buffer_length b + of_nat ?z + 1) * 1) = ?len + ?z + 1"
    unfolding un using zle l32 by simp
  define N where "N = ?len + ?z"
  define E where "E = escaped ?vb"
  define blk0 where "blk0 = replicate (N + 1) (junk h)"
  let ?buf = "fresh_addr h"
  let ?h1 = "h\<lparr>avail := avail h - (N + 1)\<rparr>"
  have le: "length E = N"
    unfolding E_def N_def length_escaped lvb ..
  have room: "N + 1 \<le> avail h" using assms(2) by (simp add: l vb N_def)
  have m: "malloc h (N + 1) = Some (?buf, ?h1\<lparr>blocks := (?buf, blk0) # blocks h\<rparr>)"
    using room by (simp add: malloc_def place_def blk0_def)
  have ne: "data b \<noteq> ?buf"
    using src fresh_addr_unused [of h] by auto
  have fit': "?k + ?len \<le> length src" using fit by simp
  have e0: "escaped (take (?len - 0) (drop (?k + 0) src)) = E"
    by (simp add: E_def)
  have "0 + length E \<le> length blk0" by (simp add: le blk0_def)
  with escape_zero_runes_top [OF ne src fit', of 0 0 blk0 ?h1]
  have "escape_zero_runes (?h1\<lparr>blocks := (?buf, blk0) # blocks h\<rparr>) (data b, ?k) ?buf ?len 0 0 =
      Inr (?h1\<lparr>blocks := (?buf, take 0 blk0 @ E @ drop (0 + length E) blk0) # blocks h\<rparr>)"
    unfolding e0 by simp
  moreover have "blk0 = replicate N (junk h) @ [junk h]"
    unfolding blk0_def by (simp add: replicate_append_same)
  then have "take 0 blk0 @ E @ drop (0 + length E) blk0 = E @ [junk h]"
    by (simp add: le)
  ultimately have el:
    "escape_zero_runes (?h1\<lparr>blocks := (?buf, blk0) # blocks h\<rparr>) (data b, ?k) ?buf ?len 0 0 =
      Inr (?h1\<lparr>blocks := (?buf, E @ [junk h]) # blocks h\<rparr>)"
    by simp
  have st: "store (?h1\<lparr>blocks := (?buf, E @ [junk h]) # blocks h\<rparr>) (?buf, 0) N 0 =
      Inr (?h1\<lparr>blocks := (?buf, E @ [0]) # blocks h\<rparr>)"
    using le by (simp add: store_top list_update_append)
  have un': "unat (c_buffer_length b + of_nat ?z) = N"
    by (simp add: un N_def)
  have un1': "unat ((c_buffer_length b + of_nat ?z + 1) * 1) = N + 1"
    using un1 by (simp add: N_def)
  have run: "c_buffer_as_null_terminated_string h b =
     Inr (?buf, ?h1\<lparr>blocks := (?buf, E @ [0]) # blocks h\<rparr>)"
    unfolding c_buffer_as_null_terminated_string_def Let_def bytes l cz bind_f_simps un1' un' m
      ASSERT_NON_NULL_def option.case prod.case el st
    by (rule refl)
  have "length (E @ [0]) = unat (c_buffer_length b) + count_list (view_bytes h b) 0 + 1"
    by (simp add: le N_def l vb)
  moreover have "0 \<notin> set E" unfolding E_def by (rule zero_notin_escaped)
  ultimately show ?thesis
    unfolding run vb E_def [symmetric]
    using fresh_addr_unused [of h]
    by simp
qed

theorem c_buffer_as_null_terminated_string_spec_witness:
  "view_ok \<lparr>blocks = [(1, [0, 0, 0, 0, 0, 0, 0, 0, 1, 0, 3, 0, 5])], avail = 16, junk = 0xAA\<rparr>
           \<lparr>offset = 1, length_B = 3, data = 1\<rparr>
   \<and> (\<exists>buf h'. c_buffer_as_null_terminated_string
          \<lparr>blocks = [(1, [0, 0, 0, 0, 0, 0, 0, 0, 1, 0, 3, 0, 5])], avail = 16, junk = 0xAA\<rparr>
          \<lparr>offset = 1, length_B = 3, data = 1\<rparr> = Inr (buf, h')
        \<and> map_of (blocks h') buf = Some [0xC0, 0x80, 3, 0xC0, 0x80, 0])"
proof -
  let ?H = "\<lparr>blocks = [(1, [0, 0, 0, 0, 0, 0, 0, 0, 1, 0, 3, 0, 5 :: u8])], avail = 16, junk = 0xAA\<rparr>"
  let ?B = "\<lparr>offset = 1, length_B = 3, data = 1\<rparr>"
  have ok: "view_ok ?H ?B"
    by (simp add: view_ok_def BUFFER_HEADER_WIDTH_def)
  have vb: "view_bytes ?H ?B = [0, 3, 0]"
    by (simp add: view_bytes_def BUFFER_HEADER_WIDTH_def)
  have room: "unat (c_buffer_length ?B) + count_list (view_bytes ?H ?B) 0 + 1 \<le> avail ?H"
    unfolding vb by (simp add: c_buffer_length_def)
  from c_buffer_as_null_terminated_string_spec [OF ok room]
  obtain buf h' where r: "c_buffer_as_null_terminated_string ?H ?B = Inr (buf, h')"
    and m: "map_of (blocks h') buf = Some (escaped (view_bytes ?H ?B) @ [0])"
    by blast
  from m have "map_of (blocks h') buf = Some [0xC0, 0x80, 3, 0xC0, 0x80, 0]"
    unfolding vb by simp
  with ok r show ?thesis by blast
qed

section \<open>Concatenation\<close>

lemma fold_max_init: "fold max xs (a::nat) = max a (fold max xs 0)"
proof (induction xs arbitrary: a)
  case Nil
  then show ?case by simp
next
  case (Cons x xs)
  have "fold max (x # xs) a = fold max xs (max x a)" by simp
  also have "\<dots> = max (max x a) (fold max xs 0)" by (rule Cons.IH)
  also have "\<dots> = max a (max x (fold max xs 0))" by (simp add: max.commute max.left_commute)
  also have "max x (fold max xs 0) = fold max xs (max x 0)" by (simp add: Cons.IH [of x])
  finally show ?case by simp
qed

text \<open>After an allocation the allocator's next address is the following one.\<close>

lemma fresh_addr_next:
  "blocks h' = (fresh_addr h, blk) # blocks h \<Longrightarrow> fresh_addr h' = Suc (fresh_addr h)"
  by (simp add: fresh_addr_def fold_max_init [of _ "Suc _"])

lemma fresh_addr_not_key: "fresh_addr h \<notin> fst ` set (blocks h)"
  using fresh_addr_unused [of h] by (simp add: map_of_eq_None_iff)

lemma c_buffer_construct_zeroed_ok:
  assumes room: "unat n + (8 + unat n) \<le> avail h"
    and nowrap: "unat n < 2 ^ 64 - 8"
  shows "c_buffer_construct_zeroed h n =
     Inr (\<lparr>offset = 0, length_B = ucast n, data = Suc (fresh_addr h)\<rparr>,
          h\<lparr>blocks := (Suc (fresh_addr h), replicate 8 0 @ replicate (unat n) 0) # blocks h,
            avail := avail h - (8 + unat n)\<rparr>)"
proof -
  let ?z = "fresh_addr h"
  let ?zs = "replicate (unat n) (0 :: u8)"
  let ?h1 = "h\<lparr>blocks := (?z, ?zs) # blocks h, avail := avail h - unat n\<rparr>"
  have ca: "calloc h (unat n) = Some (?z, ?h1)"
    using room by (simp add: calloc_def place_def)
  have rd: "readable ?h1 (?z, 0) = Inr ?zs"
    by (simp add: readable_def)
  have f1: "fresh_addr ?h1 = Suc ?z"
    by (rule fresh_addr_next) simp
  let ?b = "\<lparr>offset = 0, length_B = ucast n, data = Suc ?z\<rparr>"
  let ?h2 = "?h1\<lparr>blocks := (Suc ?z, replicate 8 0 @ take (unat n) ?zs) # blocks ?h1,
                  avail := avail ?h1 - (8 + unat n)\<rparr>"
  have co: "c_buffer_construct ?h1 n ?zs = Inr (?b, ?h2)"
    using room nowrap c_buffer_construct_ok [of n ?zs ?h1] unfolding f1 by simp
  have fr: "free ?h2 ?z =
      Inr (h\<lparr>blocks := (Suc ?z, replicate 8 0 @ ?zs) # blocks h,
             avail := avail h - (8 + unat n)\<rparr>)"
    using room fresh_addr_not_key [of h] by (simp add: free_def)
  show ?thesis
    unfolding c_buffer_construct_zeroed_def ca ASSERT_NON_NULL_def option.case bind_f_simps
      prod.case rd co fr ..
qed

lemma concatenate_loop_top:
  fixes left right :: Buffer
  defines "la \<equiv> unat (length_B left)" and "lb \<equiv> unat (length_B right)"
  assumes nl: "data left \<noteq> c" and nr: "data right \<noteq> c"
    and sl: "map_of bs (data left) = Some sl"
    and fl: "8 + unat (offset left) + la \<le> length sl"
    and sr: "map_of bs (data right) = Some sr"
    and fr: "8 + unat (offset right) + lb \<le> length sr"
    and L: "unat Lw \<le> la + lb"
    and fb: "8 + unat Lw \<le> length blk"
    and j: "j \<le> unat Lw"
  defines "AB \<equiv> take la (drop (8 + unat (offset left)) sl) @ take lb (drop (8 + unat (offset right)) sr)"
  shows "concatenate_loop (h\<lparr>blocks := (c, blk) # bs\<rparr>) left right
            \<lparr>offset = 0, length_B = Lw, data = c\<rparr> j =
         Inr (h\<lparr>blocks := (c, take (8 + j) blk @ take (unat Lw - j) (drop j AB)
                                  @ drop (8 + unat Lw) blk) # bs\<rparr>)"
  using j fb
proof (induction "unat Lw - j" arbitrary: j blk)
  case 0
  then show ?case
    by (subst concatenate_loop.simps) (simp add: c_buffer_length_def unat_ucast_32_64)
next
  case (Suc d)
  then have j: "j < unat Lw" and d: "d = unat Lw - Suc j" by simp_all
  have lAB: "length AB = la + lb" using fl fr by (simp add: AB_def)
  have jAB: "j < length AB" using j L lAB by simp
  have rd: "(if j < unat (c_buffer_length left)
             then load (h\<lparr>blocks := (c, blk) # bs\<rparr>) (c_buffer_bytes left) j
             else load (h\<lparr>blocks := (c, blk) # bs\<rparr>) (c_buffer_bytes right)
                    (j - unat (c_buffer_length left))) = Inr (AB ! j)"
  proof (cases "j < la")
    case True
    then show ?thesis
      using nl sl fl
      by (simp add: c_buffer_length_def unat_ucast_32_64 la_def [symmetric] load_def
          c_buffer_bytes_def BUFFER_HEADER_WIDTH_def AB_def nth_append add.assoc)
  next
    case False
    then have "j - la < lb" using j L by simp
    then show ?thesis
      using False nr sr fr fl
      by (simp add: c_buffer_length_def unat_ucast_32_64 la_def [symmetric] load_def
          c_buffer_bytes_def BUFFER_HEADER_WIDTH_def AB_def nth_append add.assoc)
  qed
  let ?blk = "blk[8 + j := AB ! j]"
  have len: "8 + unat Lw \<le> length ?blk" using Suc.prems by simp
  have st: "store (h\<lparr>blocks := (c, blk) # bs\<rparr>) (c_buffer_bytes \<lparr>offset = 0, length_B = Lw, data = c\<rparr>) j (AB ! j)
      = Inr (h\<lparr>blocks := (c, ?blk) # bs\<rparr>)"
    using j Suc.prems(2) by (simp add: c_buffer_bytes_def BUFFER_HEADER_WIDTH_def store_top)
  have cond: "j < unat (c_buffer_length \<lparr>offset = 0, length_B = Lw, data = c\<rparr>)"
    using j by (simp add: c_buffer_length_def unat_ucast_32_64)
  have step: "concatenate_loop (h\<lparr>blocks := (c, blk) # bs\<rparr>) left right
            \<lparr>offset = 0, length_B = Lw, data = c\<rparr> j =
        concatenate_loop (h\<lparr>blocks := (c, ?blk) # bs\<rparr>) left right
            \<lparr>offset = 0, length_B = Lw, data = c\<rparr> (Suc j)"
    by (subst concatenate_loop.simps) (simp only: cond if_True rd sum.case st)
  have "8 + j < length ?blk" using j len by simp
  from take_Suc_conv_app_nth [OF this]
  have tk: "take (8 + Suc j) ?blk = take (8 + j) blk @ [AB ! j]"
    using j Suc.prems by simp
  have dr: "drop (8 + unat Lw) ?blk = drop (8 + unat Lw) blk"
    using j by simp
  have td: "take (unat Lw - j) (drop j AB) = AB ! j # take (unat Lw - Suc j) (drop (Suc j) AB)"
    using j jAB by (metis Cons_nth_drop_Suc Suc_diff_Suc take_Suc_Cons)
  have "Suc j \<le> unat Lw" using j by simp
  from Suc.hyps(1) [OF d this len]
  show ?case
    unfolding step tk dr td by simp
qed

lemma key_below_fresh_addr:
  assumes "map_of (blocks h) a = Some blk"
  shows "a < fresh_addr h"
proof -
  have "a \<in> set (map fst (blocks h))"
    using assms by (force dest: map_of_SomeD)
  then have "a \<le> fold max (map fst (blocks h)) 0" by (rule fold_max_mem)
  then show ?thesis by (simp add: fresh_addr_def)
qed

lemma c_buffer_concatenate_ok:
  fixes a b :: Buffer
  defines "n \<equiv> unat (length_B a) + unat (length_B b)"
  assumes oka: "view_ok h a" and okb: "view_ok h b"
    and room: "2 * n + 8 \<le> avail h"
  shows "c_buffer_concatenate h a b =
     Inr (\<lparr>offset = 0, length_B = of_nat n, data = Suc (fresh_addr h)\<rparr>,
          h\<lparr>blocks := (Suc (fresh_addr h),
                         replicate 8 0
                         @ take (n mod 2 ^ 32) (view_bytes h a @ view_bytes h b)
                         @ replicate (n - n mod 2 ^ 32) 0) # blocks h,
            avail := avail h - (8 + n)\<rparr>)"
proof -
  obtain sa where sa: "map_of (blocks h) (data a) = Some sa"
    and fa: "8 + unat (offset a) + unat (length_B a) \<le> length sa"
    using oka by (auto simp: view_ok_def BUFFER_HEADER_WIDTH_def split: option.splits)
  obtain sb where sb: "map_of (blocks h) (data b) = Some sb"
    and fb: "8 + unat (offset b) + unat (length_B b) \<le> length sb"
    using okb by (auto simp: view_ok_def BUFFER_HEADER_WIDTH_def split: option.splits)
  let ?c = "Suc (fresh_addr h)"
  define AB where "AB = take (unat (length_B a)) (drop (8 + unat (offset a)) sa)
                        @ take (unat (length_B b)) (drop (8 + unat (offset b)) sb)"
  have vb: "view_bytes h a @ view_bytes h b = AB"
    using sa sb by (simp add: view_bytes_def BUFFER_HEADER_WIDTH_def AB_def)
  have la: "unat (length_B a) < 2 ^ 32" using unsigned_less [of "length_B a"] by simp
  have lb: "unat (length_B b) < 2 ^ 32" using unsigned_less [of "length_B b"] by simp
  define n64 where "n64 = c_buffer_length a + c_buffer_length b"
  have un: "unat n64 = n"
    using la lb
    by (simp add: n64_def c_buffer_length_def unat_word_ariths unat_ucast_32_64 n_def)
  define Lw :: u32 where "Lw = ucast n64"
  have uL: "unat Lw = n mod 2 ^ 32"
    by (simp add: Lw_def unat_ucast_64_32 un)
  have Lw: "Lw = of_nat n"
    by (simp add: word_unat_eq_iff uL unat_of_nat)
  define blk0 :: "u8 list" where "blk0 = replicate 8 0 @ replicate n 0"
  let ?h1 = "h\<lparr>avail := avail h - (8 + n)\<rparr>"
  have cz: "c_buffer_construct_zeroed h n64 =
      Inr (\<lparr>offset = 0, length_B = Lw, data = ?c\<rparr>, ?h1\<lparr>blocks := (?c, blk0) # blocks h\<rparr>)"
    using room la lb c_buffer_construct_zeroed_ok [of n64 h]
    by (simp add: un Lw_def blk0_def n_def)
  have na: "data a \<noteq> ?c" using key_below_fresh_addr [OF sa] by simp
  have nb: "data b \<noteq> ?c" using key_below_fresh_addr [OF sb] by simp
  have Ln: "unat Lw \<le> unat (length_B a) + unat (length_B b)"
    unfolding uL n_def [symmetric] by simp
  have fit: "8 + unat Lw \<le> length blk0"
    unfolding uL by (simp add: blk0_def)
  have "0 \<le> unat Lw" by simp
  from concatenate_loop_top [OF na nb sa fa sb fb Ln fit this, of ?h1]
  have lp: "concatenate_loop (?h1\<lparr>blocks := (?c, blk0) # blocks h\<rparr>) a b
            \<lparr>offset = 0, length_B = Lw, data = ?c\<rparr> 0 =
         Inr (?h1\<lparr>blocks := (?c, take (8 + 0) blk0 @ take (unat Lw - 0) (drop 0 AB)
                                  @ drop (8 + unat Lw) blk0) # blocks h\<rparr>)"
    unfolding AB_def .
  have res: "take (8 + 0) blk0 @ take (unat Lw - 0) (drop 0 AB) @ drop (8 + unat Lw) blk0 =
      replicate 8 0 @ take (n mod 2 ^ 32) AB @ replicate (n - n mod 2 ^ 32) 0"
    by (simp add: blk0_def uL)
  have "c_buffer_concatenate h a b =
      Inr (\<lparr>offset = 0, length_B = Lw, data = ?c\<rparr>,
           ?h1\<lparr>blocks := (?c, replicate 8 0 @ take (n mod 2 ^ 32) AB
                               @ replicate (n - n mod 2 ^ 32) 0) # blocks h\<rparr>)"
    unfolding c_buffer_concatenate_def n64_def [symmetric] cz bind_f_simps prod.case lp res ..
  then show ?thesis
    unfolding vb Lw by simp
qed

lemma length_view_bytes: "view_ok h b \<Longrightarrow> length (view_bytes h b) = unat (length_B b)"
  by (auto simp: view_ok_def view_bytes_def split: option.splits)

text \<open>
  C9, as the code has it.  The length of the result is stored in the 32-bit
  \<open>length\<close> field, so the statement holds when \<open>length(a) + length(b) < 2^32\<close>: for
  usable Views \<open>a\<close> and \<open>b\<close>, when the allocator has the bytes (the zeroed
  temporary and the result), \<open>concatenate(a, b)\<close> returns a usable View over a block
  that was not live before, of length \<open>length(a) + length(b)\<close>, whose bytes at
  \<open>j < length(a)\<close> are those of \<open>a\<close> and whose bytes at \<open>length(a) + j\<close>, for
  \<open>j < length(b)\<close>, are those of \<open>b\<close>.
\<close>

theorem c_buffer_concatenate_spec:
  assumes "view_ok h a" and "view_ok h b"
    and "unat (c_buffer_length a) + unat (c_buffer_length b) < 2 ^ 32"
    and "2 * (unat (c_buffer_length a) + unat (c_buffer_length b)) + BUFFER_HEADER_WIDTH \<le> avail h"
  shows "\<exists>r h'. c_buffer_concatenate h a b = Inr (r, h')
           \<and> map_of (blocks h) (data r) = None
           \<and> view_ok h' r
           \<and> unat (c_buffer_length r) = unat (c_buffer_length a) + unat (c_buffer_length b)
           \<and> (\<forall>j. j < c_buffer_length a \<longrightarrow> c_buffer_index h' r j = c_buffer_index h a j)
           \<and> (\<forall>j. j < c_buffer_length b \<longrightarrow>
                  c_buffer_index h' r (c_buffer_length a + j) = c_buffer_index h b j)"
proof -
  define n where "n = unat (length_B a) + unat (length_B b)"
  have la: "unat (c_buffer_length a) = unat (length_B a)"
    and lb: "unat (c_buffer_length b) = unat (length_B b)"
    by (simp_all add: c_buffer_length_def unat_ucast_32_64)
  have n32: "n < 2 ^ 32" using assms(3) by (simp add: la lb n_def)
  have room: "2 * n + 8 \<le> avail h"
    using assms(4) by (simp add: la lb n_def BUFFER_HEADER_WIDTH_def)
  define A where "A = view_bytes h a"
  define B where "B = view_bytes h b"
  have lA: "length A = unat (length_B a)" and lB: "length B = unat (length_B b)"
    unfolding A_def B_def by (simp_all add: length_view_bytes assms(1,2))
  let ?r = "\<lparr>offset = 0, length_B = of_nat n, data = Suc (fresh_addr h)\<rparr>"
  let ?h' = "h\<lparr>blocks := (Suc (fresh_addr h), replicate 8 0 @ A @ B) # blocks h,
               avail := avail h - (8 + n)\<rparr>"
  have "take (n mod 2 ^ 32) (A @ B) @ replicate (n - n mod 2 ^ 32) 0 = A @ B"
    using n32 lA lB by (simp add: n_def)
  with c_buffer_concatenate_ok [OF assms(1,2)] room
  have run: "c_buffer_concatenate h a b = Inr (?r, ?h')"
    by (simp add: n_def A_def B_def)
  have lr: "unat (length_B ?r) = n"
    using n32 by (simp add: unat_of_nat)
  have lr64: "unat (c_buffer_length ?r) = n"
    using lr by (simp add: c_buffer_length_def unat_ucast_32_64)
  have fresh: "map_of (blocks h) (data ?r) = None"
  proof (rule ccontr)
    assume "map_of (blocks h) (data ?r) \<noteq> None"
    then obtain blk where "map_of (blocks h) (Suc (fresh_addr h)) = Some blk" by auto
    from key_below_fresh_addr [OF this] show False by simp
  qed
  have ok: "view_ok ?h' ?r"
    using lr lA lB by (simp add: view_ok_def BUFFER_HEADER_WIDTH_def n_def)
  have idx: "c_buffer_index ?h' ?r j = Inr (ucast ((A @ B) ! unat j))" if "unat j < n" for j
    using that lA lB
    by (simp add: c_buffer_index_def load_def BUFFER_HEADER_WIDTH_def n_def nth_append)
  have first: "c_buffer_index ?h' ?r j = c_buffer_index h a j" if "j < c_buffer_length a" for j
  proof -
    have j: "unat j < unat (length_B a)"
      using that by (simp add: word_less_nat_alt la)
    then have "unat j < n" by (simp add: n_def)
    from idx [OF this] j show ?thesis
      by (simp add: c_buffer_index_in_view [OF assms(1) that] nth_append lA)
        (simp add: A_def)
  qed
  have second: "c_buffer_index ?h' ?r (c_buffer_length a + j) = c_buffer_index h b j"
    if "j < c_buffer_length b" for j
  proof -
    have j: "unat j < unat (length_B b)"
      using that by (simp add: word_less_nat_alt lb)
    have s: "unat (c_buffer_length a + j) = unat (length_B a) + unat j"
      using j n32 by (simp add: unat_word_ariths la n_def)
    then have "unat (c_buffer_length a + j) < n" using j by (simp add: n_def)
    from idx [OF this] show ?thesis
      by (simp add: s c_buffer_index_in_view [OF assms(2) that] nth_append lA B_def)
  qed
  show ?thesis
    using run fresh ok lr64 first second
    by (simp add: la lb n_def)
qed

theorem c_buffer_concatenate_spec_witness:
  "view_ok \<lparr>blocks = [(1, [0, 0, 0, 0, 0, 0, 0, 0, 1, 2, 3, 4, 5])], avail = 64, junk = 0xAA\<rparr>
           \<lparr>offset = 1, length_B = 2, data = 1\<rparr>
   \<and> view_ok \<lparr>blocks = [(1, [0, 0, 0, 0, 0, 0, 0, 0, 1, 2, 3, 4, 5])], avail = 64, junk = 0xAA\<rparr>
           \<lparr>offset = 3, length_B = 2, data = 1\<rparr>
   \<and> (\<exists>r h'. c_buffer_concatenate
          \<lparr>blocks = [(1, [0, 0, 0, 0, 0, 0, 0, 0, 1, 2, 3, 4, 5])], avail = 64, junk = 0xAA\<rparr>
          \<lparr>offset = 1, length_B = 2, data = 1\<rparr> \<lparr>offset = 3, length_B = 2, data = 1\<rparr> = Inr (r, h')
        \<and> data r \<noteq> 1
        \<and> unat (c_buffer_length r) = 4
        \<and> c_buffer_index h' r 0 = Inr 2
        \<and> c_buffer_index h' r 1 = Inr 3
        \<and> c_buffer_index h' r 2 = Inr 4
        \<and> c_buffer_index h' r 3 = Inr 5)"
proof -
  let ?H = "\<lparr>blocks = [(1, [0, 0, 0, 0, 0, 0, 0, 0, 1, 2, 3, 4, 5 :: u8])], avail = 64, junk = 0xAA\<rparr>"
  let ?A = "\<lparr>offset = 1, length_B = 2, data = 1\<rparr>"
  let ?B = "\<lparr>offset = 3, length_B = 2, data = 1\<rparr>"
  have oka: "view_ok ?H ?A" and okb: "view_ok ?H ?B"
    by (simp_all add: view_ok_def BUFFER_HEADER_WIDTH_def)
  have sm: "unat (c_buffer_length ?A) + unat (c_buffer_length ?B) < 2 ^ 32"
    by (simp add: c_buffer_length_def)
  have room: "2 * (unat (c_buffer_length ?A) + unat (c_buffer_length ?B)) + BUFFER_HEADER_WIDTH
      \<le> avail ?H"
    by (simp add: c_buffer_length_def BUFFER_HEADER_WIDTH_def)
  from c_buffer_concatenate_spec [OF oka okb sm room]
  obtain r h' where run: "c_buffer_concatenate ?H ?A ?B = Inr (r, h')"
    and fresh: "map_of (blocks ?H) (data r) = None"
    and len: "unat (c_buffer_length r) = unat (c_buffer_length ?A) + unat (c_buffer_length ?B)"
    and first: "\<forall>j. j < c_buffer_length ?A \<longrightarrow> c_buffer_index h' r j = c_buffer_index ?H ?A j"
    and second: "\<forall>j. j < c_buffer_length ?B \<longrightarrow>
        c_buffer_index h' r (c_buffer_length ?A + j) = c_buffer_index ?H ?B j"
    by blast
  from fresh have d: "data r \<noteq> 1" by (auto split: if_splits)
  from len have l: "unat (c_buffer_length r) = 4" by (simp add: c_buffer_length_def)
  have "(0 :: u64) < c_buffer_length ?A" "(1 :: u64) < c_buffer_length ?A"
    by (simp_all add: c_buffer_length_def)
  with first have "c_buffer_index h' r 0 = c_buffer_index ?H ?A 0"
    "c_buffer_index h' r 1 = c_buffer_index ?H ?A 1" by blast+
  then have i: "c_buffer_index h' r 0 = Inr 2" "c_buffer_index h' r 1 = Inr 3"
    by (simp_all add: c_buffer_index_def load_def BUFFER_HEADER_WIDTH_def)
  have "(0 :: u64) < c_buffer_length ?B" "(1 :: u64) < c_buffer_length ?B"
    by (simp_all add: c_buffer_length_def)
  with second have "c_buffer_index h' r (c_buffer_length ?A + 0) = c_buffer_index ?H ?B 0"
    "c_buffer_index h' r (c_buffer_length ?A + 1) = c_buffer_index ?H ?B 1" by blast+
  then have k: "c_buffer_index h' r 2 = Inr 4" "c_buffer_index h' r 3 = Inr 5"
    by (simp_all add: c_buffer_length_def c_buffer_index_def load_def BUFFER_HEADER_WIDTH_def)
  show ?thesis using oka okb run d l i k by blast
qed

text \<open>
  Two Views of \<open>2^31\<close> bytes each: the sum \<open>2^32\<close> does not fit the length field,
  the result has length 0 and none of the bytes is copied.
\<close>

theorem c_buffer_concatenate_length_truncated:
  "c_buffer_concatenate
      \<lparr>blocks = [(1, replicate (8 + 2 ^ 31) 0x41)], avail = 2 ^ 34, junk = 0\<rparr>
      \<lparr>offset = 0, length_B = 2 ^ 31, data = 1\<rparr> \<lparr>offset = 0, length_B = 2 ^ 31, data = 1\<rparr> =
     Inr (\<lparr>offset = 0, length_B = 0, data = 3\<rparr>,
          \<lparr>blocks = [(3, replicate 8 0 @ replicate (2 ^ 32) 0), (1, replicate (8 + 2 ^ 31) 0x41)],
            avail = 2 ^ 34 - (8 + 2 ^ 32), junk = 0\<rparr>)"
proof -
  let ?H = "\<lparr>blocks = [(1, replicate (8 + 2 ^ 31) (0x41 :: u8))], avail = 2 ^ 34, junk = 0\<rparr>"
  let ?A = "\<lparr>offset = 0, length_B = 2 ^ 31, data = 1\<rparr>"
  have ok: "view_ok ?H ?A"
    by (simp add: view_ok_def BUFFER_HEADER_WIDTH_def)
  have room: "2 * (unat (length_B ?A) + unat (length_B ?A)) + 8 \<le> avail ?H"
    by simp
  have f: "fresh_addr ?H = 2" by (simp add: fresh_addr_def)
  show ?thesis
    unfolding c_buffer_concatenate_ok [OF ok ok room] f
    by simp
qed

end
